theory Spec2Isabelle
  imports Main
begin

section \<open>Strings and character classes\<close>

text \<open>
  The prompt parser of the try-on server exists twice in the repository: in
  \<^verbatim>\<open>src/server.js\<close> (lines 379-478) and, with a duplicate filter, one more stage and
  a larger pool of templates, in \<^verbatim>\<open>src/unnamed/part_000\<close> (lines 476-637). Both are
  embedded here; names of the first carry the prefix \<open>server_\<close>, names of the second the
  prefix \<open>part000_\<close>, and what the two files share literally (the regular expressions,
  the cleaning of a candidate) is defined once.

  A JavaScript string is a sequence of UTF-16 code units and \<open>length\<close> counts them. The
  model is a \<open>char list\<close> with one \<open>char\<close> per code unit, hence it covers the strings
  whose code units are below 256 (ASCII and Latin-1); \<open>length\<close> is then the JavaScript
  \<open>length\<close>.
\<close>

definition isWhiteSpace :: "char \<Rightarrow> bool" where
  \<comment> \<open>the class \<open>\s\<close>, which is also what \<open>trim\<close> strips: TAB, LF, VT, FF, CR, SP, NBSP
      (its other members are code units above 255)\<close>
  "isWhiteSpace c =
     (c \<in> set [CHR 0x09, CHR 0x0A, CHR 0x0B, CHR 0x0C, CHR 0x0D, CHR 0x20, CHR 0xA0])"

definition isDigit :: "char \<Rightarrow> bool" where
  \<comment> \<open>the class \<open>\d\<close>\<close>
  "isDigit c = (c \<in> set ''0123456789'')"

definition isLineTerminator :: "char \<Rightarrow> bool" where
  \<comment> \<open>what \<open>.\<close> does not match: LF and CR (and two code units above 255)\<close>
  "isLineTerminator c = (c = CHR 0x0A \<or> c = CHR 0x0D)"

definition star :: char where
  "star = CHR ''*''"

definition toLowerCaseChar :: "char \<Rightarrow> char" where
  \<comment> \<open>A-Z and the Latin-1 capitals (0xC0-0xDE without the multiplication sign 0xD7)
      move up by 0x20, which sets bit 5\<close>
  "toLowerCaseChar c =
     (let n = (of_char c :: nat) in
      if (65 \<le> n \<and> n \<le> 90) \<or> (192 \<le> n \<and> n \<le> 222 \<and> n \<noteq> 215)
      then (case c of Char b0 b1 b2 b3 b4 b5 b6 b7 \<Rightarrow> Char b0 b1 b2 b3 b4 True b6 b7)
      else c)"

definition toLowerCase :: "string \<Rightarrow> string" where
  "toLowerCase s = map toLowerCaseChar s"

definition canonicalize :: "char \<Rightarrow> char" where
  \<comment> \<open>The comparison key of the \<open>i\<close> flag. Every pattern character below is ASCII, and
      a code unit from 128 on never canonicalizes to an ASCII one, so only a-z matter.\<close>
  "canonicalize c =
     (if c \<in> set ''abcdefghijklmnopqrstuvwxyz''
      then (case c of Char b0 b1 b2 b3 b4 b5 b6 b7 \<Rightarrow> Char b0 b1 b2 b3 b4 False b6 b7)
      else c)"

definition trim :: "string \<Rightarrow> string" where
  "trim s = rev (dropWhile isWhiteSpace (rev (dropWhile isWhiteSpace s)))"

function collapseWhiteSpace :: "string \<Rightarrow> string" where
  \<comment> \<open>\<open>.replace(/\s+/g, ' ')\<close>\<close>
  "collapseWhiteSpace [] = []"
| "collapseWhiteSpace (c # cs) =
     (if isWhiteSpace c then CHR '' '' # collapseWhiteSpace (dropWhile isWhiteSpace cs)
      else c # collapseWhiteSpace cs)"
  by pat_completeness auto
termination
  by (relation "measure length") (auto simp: le_imp_less_Suc length_dropWhile_le)

definition normalize :: "string \<Rightarrow> string" where
  \<comment> \<open>\<open>prompt.toLowerCase().replace(/\s+/g, ' ').trim()\<close> (part_000 lines 499, 522, 545,
      566, 588, 604)\<close>
  "normalize s = trim (collapseWhiteSpace (toLowerCase s))"

section \<open>The regular expressions\<close>

text \<open>
  A matcher takes the text from the current position on and returns the text after the
  match, or \<open>None\<close>. The expressions are matched the way the backtracking matcher of
  JavaScript does it: alternatives in order, greedy and lazy quantifiers as written.

  In the header expressions a greedy \<open>\s*\<close> or \<open>\d*\<close> is always followed by a character
  outside its class, so giving back a character can never turn a failure into a
  success: taking the longest run (\<open>dropWhile\<close>) is what the matcher finds.
\<close>

fun literal :: "string \<Rightarrow> string \<Rightarrow> string option" where
  \<comment> \<open>the characters of a pattern, compared under the \<open>i\<close> flag\<close>
  "literal [] s = Some s"
| "literal (p # ps) [] = None"
| "literal (p # ps) (c # cs) =
     (if canonicalize c = canonicalize p then literal ps cs else None)"

definition spaces :: "string \<Rightarrow> string" where
  \<comment> \<open>\<open>\s*\<close>\<close>
  "spaces s = dropWhile isWhiteSpace s"

definition digits :: "string \<Rightarrow> string" where
  \<comment> \<open>\<open>\d*\<close>\<close>
  "digits s = dropWhile isDigit s"

definition numberColon :: "string \<Rightarrow> string option" where
  \<comment> \<open>\<open>\s*\d*:\<close>\<close>
  "numberColon s = literal '':'' (digits (spaces s))"

definition hashPromptHeader :: "string \<Rightarrow> string option" where
  \<comment> \<open>\<open>###\s*Prompt\s*\d*:\<close>\<close>
  "hashPromptHeader s =
     (case literal ''###'' s of None \<Rightarrow> None
      | Some r \<Rightarrow> (case literal ''Prompt'' (spaces r) of None \<Rightarrow> None
      | Some r' \<Rightarrow> numberColon r'))"

definition promptHeader :: "string \<Rightarrow> string option" where
  \<comment> \<open>\<open>Prompt\s*\d*:\<close>\<close>
  "promptHeader s = (case literal ''Prompt'' s of None \<Rightarrow> None | Some r \<Rightarrow> numberColon r)"

definition imageHeader :: "string \<Rightarrow> string option" where
  \<comment> \<open>\<open>Image\s*\d*:\<close>\<close>
  "imageHeader s = (case literal ''Image'' s of None \<Rightarrow> None | Some r \<Rightarrow> numberColon r)"

definition editingHeader :: "string \<Rightarrow> string option" where
  \<comment> \<open>\<open>Prompt\s*for\s*AI\s*Image\s*Editing\<close>\<close>
  "editingHeader s =
     (case literal ''Prompt'' s of None \<Rightarrow> None
      | Some r1 \<Rightarrow> (case literal ''for'' (spaces r1) of None \<Rightarrow> None
      | Some r2 \<Rightarrow> (case literal ''AI'' (spaces r2) of None \<Rightarrow> None
      | Some r3 \<Rightarrow> (case literal ''Image'' (spaces r3) of None \<Rightarrow> None
      | Some r4 \<Rightarrow> literal ''Editing'' (spaces r4)))))"

definition orElse :: "'a option \<Rightarrow> 'a option \<Rightarrow> 'a option" where
  \<comment> \<open>\<open>A|B\<close>: the first alternative that matches\<close>
  "orElse a b = (case a of Some x \<Rightarrow> Some x | None \<Rightarrow> b)"

definition headerAhead :: "string \<Rightarrow> bool" where
  \<comment> \<open>the lookahead
      \<open>(?=###\s*Prompt\s*\d*:|Prompt\s*\d*:|Image\s*\d*:|Prompt\s*for\s*AI\s*Image\s*Editing|$)\<close>;
      without the \<open>m\<close> flag \<open>$\<close> is the end of the text\<close>
  "headerAhead s =
     (hashPromptHeader s \<noteq> None \<or> promptHeader s \<noteq> None \<or> imageHeader s \<noteq> None
      \<or> editingHeader s \<noteq> None \<or> s = [])"

fun lazyToHeader :: "string \<Rightarrow> string" where
  \<comment> \<open>\<open>[^]*?\<close> in front of the lookahead: the shortest run after which the lookahead holds\<close>
  "lazyToHeader [] = []"
| "lazyToHeader (c # cs) = (if headerAhead (c # cs) then c # cs else lazyToHeader cs)"

definition thenAhead :: "string option \<Rightarrow> string option" where
  "thenAhead m = (case m of Some r \<Rightarrow> if headerAhead r then Some r else None | None \<Rightarrow> None)"

definition structuredAt :: "string \<Rightarrow> string option" where
  \<comment> \<open>One match of the expression of server.js line 386 (part_000 line 484) at the
      current position. Only the last alternative carries \<open>[^]*?\<close>: the first three must
      be followed at once by another header or by the end of the text.\<close>
  "structuredAt s =
     orElse (thenAhead (hashPromptHeader s))
    (orElse (thenAhead (promptHeader s))
    (orElse (thenAhead (imageHeader s))
            (map_option lazyToHeader (editingHeader s))))"

definition matched :: "string \<Rightarrow> string \<Rightarrow> string" where
  \<comment> \<open>the matched text, given the text at the start of the match and the text after it\<close>
  "matched s r = take (length s - length r) s"

subsection \<open>The matchers consume text\<close>

text \<open>
  Every header match consumes at least one character. The functions that search the
  whole text resume after a match, and this is why they terminate.
\<close>

lemma literal_length: "literal p s = Some r \<Longrightarrow> length r + length p = length s"
  by (induction p s rule: literal.induct) (auto split: if_splits)

lemma spaces_length: "length (spaces s) \<le> length s"
  unfolding spaces_def by (rule length_dropWhile_le)

lemma digits_length: "length (digits s) \<le> length s"
  unfolding digits_def by (rule length_dropWhile_le)

lemma numberColon_shorter: "numberColon s = Some r \<Longrightarrow> length r < length s"
proof -
  assume "numberColon s = Some r"
  then have "length r < length (digits (spaces s))"
    unfolding numberColon_def by (auto dest: literal_length)
  also have "\<dots> \<le> length (spaces s)" by (rule digits_length)
  also have "\<dots> \<le> length s" by (rule spaces_length)
  finally show ?thesis .
qed

lemma literal_spaces_length:
  "literal p (spaces s) = Some r \<Longrightarrow> length r \<le> length s"
  using literal_length [of p "spaces s" r] spaces_length [of s] by simp

lemma hashPromptHeader_shorter: "hashPromptHeader s = Some r \<Longrightarrow> length r < length s"
proof -
  assume "hashPromptHeader s = Some r"
  then obtain r1 r2 where a: "literal ''###'' s = Some r1"
    and b: "literal ''Prompt'' (spaces r1) = Some r2" and c: "numberColon r2 = Some r"
    unfolding hashPromptHeader_def by (auto split: option.splits)
  from literal_length [OF a] literal_spaces_length [OF b] numberColon_shorter [OF c]
  show ?thesis by simp
qed

lemma promptHeader_shorter: "promptHeader s = Some r \<Longrightarrow> length r < length s"
proof -
  assume "promptHeader s = Some r"
  then obtain r1 where a: "literal ''Prompt'' s = Some r1" and c: "numberColon r1 = Some r"
    unfolding promptHeader_def by (auto split: option.splits)
  from literal_length [OF a] numberColon_shorter [OF c]
  show ?thesis by simp
qed

lemma imageHeader_shorter: "imageHeader s = Some r \<Longrightarrow> length r < length s"
proof -
  assume "imageHeader s = Some r"
  then obtain r1 where a: "literal ''Image'' s = Some r1" and c: "numberColon r1 = Some r"
    unfolding imageHeader_def by (auto split: option.splits)
  from literal_length [OF a] numberColon_shorter [OF c]
  show ?thesis by simp
qed

lemma editingHeader_shorter: "editingHeader s = Some r \<Longrightarrow> length r < length s"
proof -
  assume "editingHeader s = Some r"
  then obtain r1 r2 r3 r4 where a: "literal ''Prompt'' s = Some r1"
    and b: "literal ''for'' (spaces r1) = Some r2"
    and c: "literal ''AI'' (spaces r2) = Some r3"
    and d: "literal ''Image'' (spaces r3) = Some r4"
    and e: "literal ''Editing'' (spaces r4) = Some r"
    unfolding editingHeader_def by (auto split: option.splits)
  from literal_length [OF a] literal_spaces_length [OF b] literal_spaces_length [OF c]
    literal_spaces_length [OF d] literal_spaces_length [OF e]
  show ?thesis by simp
qed

lemma lazyToHeader_length: "length (lazyToHeader s) \<le> length s"
  by (induction s) (auto simp: le_SucI)

lemma thenAhead_Some: "thenAhead m = Some r \<Longrightarrow> m = Some r"
  unfolding thenAhead_def by (auto split: option.splits if_splits)

lemma orElse_Some: "orElse a b = Some r \<Longrightarrow> a = Some r \<or> b = Some r"
  unfolding orElse_def by (auto split: option.splits)

lemma structuredAt_shorter: "structuredAt s = Some r \<Longrightarrow> length r < length s"
proof -
  assume "structuredAt s = Some r"
  then consider "hashPromptHeader s = Some r" | "promptHeader s = Some r"
    | "imageHeader s = Some r" | r' where "editingHeader s = Some r'" "r = lazyToHeader r'"
    unfolding structuredAt_def by (auto dest!: orElse_Some thenAhead_Some)
  then show ?thesis
  proof cases
    case 4
    then show ?thesis
      using editingHeader_shorter [of s r'] lazyToHeader_length [of r'] by simp
  qed (auto dest: hashPromptHeader_shorter promptHeader_shorter imageHeader_shorter)
qed

subsection \<open>Matching and replacing over the whole text\<close>

function structuredPrompts :: "string \<Rightarrow> string list" where
  \<comment> \<open>\<open>promptText.match(/.../gi)\<close>: every match, left to right, the search resuming where
      the last match ended. A match is never empty. \<open>null\<close> (no match) is the empty list:
      the source tests for it and does nothing then.\<close>
  "structuredPrompts [] = []"
| "structuredPrompts (c # cs) =
     (case structuredAt (c # cs) of
        Some r \<Rightarrow> matched (c # cs) r # structuredPrompts r
      | None \<Rightarrow> structuredPrompts cs)"
  by pat_completeness auto
termination
  by (relation "measure length") (auto dest: structuredAt_shorter)

definition removeHeader :: "string \<Rightarrow> string" where
  \<comment> \<open>\<open>.replace(/^(?:###\s*Prompt\s*\d*:|Prompt\s*\d*:|Image\s*\d*:|Prompt\s*for\s*AI\s*Image\s*Editing[^]*?)/gi, '')\<close>:
      without the \<open>m\<close> flag \<open>^\<close> is the start of the text, so there is at most one
      match; the lazy \<open>[^]*?\<close> has nothing after it and matches the empty string\<close>
  "removeHeader s =
     (case orElse (hashPromptHeader s) (orElse (promptHeader s)
             (orElse (imageHeader s) (editingHeader s))) of
        Some r \<Rightarrow> r
      | None \<Rightarrow> s)"

fun boldClose :: "string \<Rightarrow> (string \<times> string) option" where
  \<comment> \<open>\<open>(.*?)\*\*\<close> after an opening \<open>**\<close>: the captured text and the text after the
      closing \<open>**\<close>. The lazy \<open>.*?\<close> first tries to close, else takes one more character,
      which may be a \<open>*\<close> but not a line terminator.\<close>
  "boldClose (c # d # r) =
     (if c = star \<and> d = star then Some ([], r)
      else if isLineTerminator c then None
      else (case boldClose (d # r) of None \<Rightarrow> None | Some (inner, r') \<Rightarrow> Some (c # inner, r')))"
| "boldClose s = None"

lemma boldClose_shorter: "boldClose s = Some (inner, r) \<Longrightarrow> length r < length s"
proof (induction s arbitrary: inner rule: boldClose.induct)
  case (1 c d r')
  show ?case
  proof (cases "c = star \<and> d = star")
    case True
    with "1.prems" show ?thesis by simp
  next
    case False
    with "1.prems" obtain inner' where lt: "\<not> isLineTerminator c"
      and "boldClose (d # r') = Some (inner', r)"
      by (auto split: if_splits option.splits)
    with "1.IH" [OF False lt] show ?thesis by fastforce
  qed
qed simp_all

function removeBold :: "string \<Rightarrow> string" where
  \<comment> \<open>\<open>.replace(/\*\*(.*?)\*\*/g, '$1')\<close>\<close>
  "removeBold (c # d # r) =
     (if c = star \<and> d = star
      then (case boldClose r of
              Some (inner, r') \<Rightarrow> inner @ removeBold r'
            | None \<Rightarrow> c # removeBold (d # r))
      else c # removeBold (d # r))"
| "removeBold [c] = [c]"
| "removeBold [] = []"
  by pat_completeness auto
termination
proof (relation "measure length")
  fix c d :: char and r :: string and x2 x y
  assume "boldClose r = Some x2" "(x, y) = x2"
  then have "boldClose r = Some (x, y)" by simp
  from boldClose_shorter [OF this] show "(y, c # d # r) \<in> measure length" by simp
qed simp_all

fun italicClose :: "string \<Rightarrow> (string \<times> string) option" where
  \<comment> \<open>\<open>(.*?)\*\<close> after an opening \<open>*\<close>\<close>
  "italicClose [] = None"
| "italicClose (c # cs) =
     (if c = star then Some ([], cs)
      else if isLineTerminator c then None
      else (case italicClose cs of None \<Rightarrow> None | Some (inner, r) \<Rightarrow> Some (c # inner, r)))"

lemma italicClose_shorter: "italicClose s = Some (inner, r) \<Longrightarrow> length r \<le> length s"
proof (induction s arbitrary: inner)
  case Nil
  then show ?case by simp
next
  case (Cons c cs)
  show ?case
  proof (cases "c = star")
    case True
    with Cons.prems show ?thesis by simp
  next
    case False
    with Cons.prems obtain inner' where "italicClose cs = Some (inner', r)"
      by (auto split: if_splits option.splits)
    from Cons.IH [OF this] show ?thesis by simp
  qed
qed

function removeItalic :: "string \<Rightarrow> string" where
  \<comment> \<open>\<open>.replace(/\*(.*?)\*/g, '$1')\<close>\<close>
  "removeItalic [] = []"
| "removeItalic (c # cs) =
     (if c = star
      then (case italicClose cs of
              Some (inner, r) \<Rightarrow> inner @ removeItalic r
            | None \<Rightarrow> c # removeItalic cs)
      else c # removeItalic cs)"
  by pat_completeness auto
termination
proof (relation "measure length")
  fix c :: char and cs :: string and x2 x y
  assume "italicClose cs = Some x2" "(x, y) = x2"
  then have "italicClose cs = Some (x, y)" by simp
  from italicClose_shorter [OF this] show "(y, c # cs) \<in> measure length" by simp
qed simp_all

definition removeEmphasis :: "string \<Rightarrow> string" where
  \<comment> \<open>the two replacements that the stages apply one after the other\<close>
  "removeEmphasis s = removeItalic (removeBold s)"

definition stripMarkup :: "string \<Rightarrow> string" where
  \<comment> \<open>the three replacements of server.js lines 426-428 (part_000 lines 560-562)\<close>
  "stripMarkup s = removeEmphasis (removeHeader s)"

section \<open>The three splits\<close>

text \<open>
  \<open>split\<close> with a regular expression walks the text with a start \<open>p\<close> of the current
  piece and a position \<open>q\<close>: a match at \<open>q\<close> that ends at \<open>e \<noteq> p\<close> closes the piece
  \<open>[p, q)\<close> and sets \<open>p = q = e\<close>; otherwise \<open>q\<close> moves on by one. The text from \<open>p\<close> to the
  end is the last piece, and the empty text gives one empty piece (none of the three
  expressions matches it). The functions below return the pieces of the text from \<open>p\<close>
  on: a character that no match consumes goes in front of the first piece of the rest.
\<close>

definition intoFirst :: "char \<Rightarrow> string list \<Rightarrow> string list" where
  "intoFirst c pieces = (case pieces of [] \<Rightarrow> [[c]] | piece # rest \<Rightarrow> (c # piece) # rest)"

function promptSections :: "string \<Rightarrow> string list" where
  \<comment> \<open>\<open>promptText.split(/###\s*Prompt\s*\d*:/i)\<close> (part_000 line 511)\<close>
  "promptSections [] = [[]]"
| "promptSections (c # cs) =
     (case hashPromptHeader (c # cs) of
        Some r \<Rightarrow> [] # promptSections r
      | None \<Rightarrow> intoFirst c (promptSections cs))"
  by pat_completeness auto
termination
  by (relation "measure length") (auto dest: hashPromptHeader_shorter)

definition numberedAhead :: "string \<Rightarrow> bool" where
  \<comment> \<open>\<open>\d+\.\s\<close> matches here\<close>
  "numberedAhead s =
     (case s of [] \<Rightarrow> False
      | c # cs \<Rightarrow> isDigit c \<and>
          (case digits cs of d # w # _ \<Rightarrow> d = CHR ''.'' \<and> isWhiteSpace w | _ \<Rightarrow> False))"

fun numberedSplit :: "string \<Rightarrow> string list" where
  \<comment> \<open>\<open>promptText.split(/(?=\d+\.\s)/)\<close> (server.js line 409, part_000 line 534). The
      lookahead matches the empty string, so \<open>e = q\<close>: a match at the start of a piece
      (\<open>q = p\<close>, as at the start of the text) is skipped and the character there goes into
      the piece; a match after it cuts the text in front of it.\<close>
  "numberedSplit [] = [[]]"
| "numberedSplit (c # cs) =
     (if numberedAhead cs then [c] # numberedSplit cs else intoFirst c (numberedSplit cs))"

fun blankLine :: "string \<Rightarrow> string option" where
  \<comment> \<open>\<open>\s*\n\<close> after a first newline. Here \<open>\s\<close> matches a newline as well, so the greedy
      \<open>\s*\<close> gives characters back until a newline follows: the match ends after the last
      newline of the whitespace run.\<close>
  "blankLine [] = None"
| "blankLine (c # cs) =
     (if isWhiteSpace c
      then (case blankLine cs of
              Some r \<Rightarrow> Some r
            | None \<Rightarrow> if c = CHR 0x0A then Some cs else None)
      else None)"

lemma blankLine_shorter: "blankLine s = Some r \<Longrightarrow> length r < length s"
proof (induction s)
  case Nil
  then show ?case by simp
next
  case (Cons c cs)
  show ?case
  proof (cases "blankLine cs")
    case None
    with Cons.prems show ?thesis by (auto split: if_splits)
  next
    case (Some r')
    with Cons.prems have "r' = r" by (auto split: if_splits)
    with Cons.IH Some show ?thesis by simp
  qed
qed

function paragraphSplit :: "string \<Rightarrow> string list" where
  \<comment> \<open>\<open>promptText.split(/\n\s*\n/)\<close> (server.js line 440, part_000 line 578)\<close>
  "paragraphSplit [] = [[]]"
| "paragraphSplit (c # cs) =
     (case (if c = CHR 0x0A then blankLine cs else None) of
        Some r \<Rightarrow> [] # paragraphSplit r
      | None \<Rightarrow> intoFirst c (paragraphSplit cs))"
  by pat_completeness auto
termination
proof (relation "measure length")
  fix c :: char and cs x2 :: string
  assume "(if c = CHR 0x0A then blankLine cs else None) = Some x2"
  then have "blankLine cs = Some x2" by (simp split: if_splits)
  from blankLine_shorter [OF this] show "(x2, c # cs) \<in> measure length" by simp
qed simp_all

section \<open>The variations\<close>

datatype error = TypeError

function decimal :: "nat \<Rightarrow> string" where
  \<comment> \<open>the decimal digits of a natural number\<close>
  "decimal n =
     (if n < 10 then [''0123456789'' ! n] else decimal (n div 10) @ [''0123456789'' ! (n mod 10)])"
  by pat_completeness auto
termination
  by (relation "measure id") auto

declare decimal.simps [simp del]

definition numberToString :: "int \<Rightarrow> string" where
  \<comment> \<open>what a template literal prints for an integer (below \<open>10^21\<close> in magnitude, from
      where on JavaScript switches to the exponent notation)\<close>
  "numberToString i = (if i < 0 then CHR ''-'' # decimal (nat (- i)) else decimal (nat i))"

definition remainder :: "int \<Rightarrow> int \<Rightarrow> int" where
  \<comment> \<open>\<open>a % b\<close> for \<open>b > 0\<close>: the sign is the sign of \<open>a\<close>. A negative multiple of \<open>b\<close>
      gives \<open>-0\<close>, which as an array index is 0.\<close>
  "remainder a b = (if a < 0 then - ((- a) mod b) else a mod b)"

definition server_creativeVariations :: "int \<Rightarrow> string list" where
  \<comment> \<open>the array \<open>creativeVariations\<close> of server.js lines 470-475, with \<open>${index}\<close> filled in\<close>
  "server_creativeVariations index =
     [''ARTISTIC VARIATION ''
        @ numberToString index
        @ '': Replace the person's current clothing with the uploaded clothing items''
        @ '', maintaining their face and body unchanged. Apply dramatic artistic lig''
        @ ''hting with creative shadows and rim lighting effects. Position the perso''
        @ ''n in a dynamic pose with emotional expression against an artistic backgr''
        @ ''ound with depth and texture. Use advanced composition techniques includi''
        @ ''ng rule of thirds and creative depth of field for maximum visual impact.'',
      ''CREATIVE MASTERPIECE ''
        @ numberToString index
        @ '': Remove the person's current clothing and dress them in the uploaded cl''
        @ ''othing items, keeping their face and body appearance the same. Create a ''
        @ ''visually stunning composition with artistic lighting, creative pose vari''
        @ ''ations, and dramatic background elements. Apply mood and atmosphere thro''
        @ ''ugh sophisticated color grading and artistic ambiance for a truly artist''
        @ ''ic result.'',
      ''VISUAL ARTWORK ''
        @ numberToString index
        @ '': Transform the person's clothing to the uploaded items while preserving''
        @ '' their facial features and body structure. Craft an artistic visual expe''
        @ ''rience with creative lighting setups, dynamic pose expressions, and arti''
        @ ''stic background transformations. Incorporate advanced photography techni''
        @ ''ques including selective focus, artistic bokeh, and creative composition''
        @ '' for a masterpiece result.'',
      ''ARTISTIC ENHANCEMENT ''
        @ numberToString index
        @ '': Replace the person's current clothing with the uploaded clothing items''
        @ '', maintaining their face and body unchanged. Create an artistic visual n''
        @ ''arrative with dramatic lighting, creative shadow play, and sophisticated''
        @ '' composition. Apply color theory principles and artistic depth of field ''
        @ ''effects for a creatively enhanced, visually stunning image.'']"

definition part000_creativeVariations :: "int \<Rightarrow> string list" where
  \<comment> \<open>the array \<open>creativeVariations\<close> of part_000 lines 623-634, with \<open>${index}\<close> filled in\<close>
  "part000_creativeVariations index =
     [''ARTISTIC VARIATION ''
        @ numberToString index
        @ '': Replace the person's current clothing with the uploaded clothing items''
        @ '', maintaining their face and body unchanged. Apply dramatic artistic lig''
        @ ''hting with creative shadows and rim lighting effects. Position the perso''
        @ ''n in a dynamic pose with emotional expression against an artistic backgr''
        @ ''ound with depth and texture. Use advanced composition techniques includi''
        @ ''ng rule of thirds and creative depth of field for maximum visual impact.'',
      ''CREATIVE MASTERPIECE ''
        @ numberToString index
        @ '': Remove the person's current clothing and dress them in the uploaded cl''
        @ ''othing items, keeping their face and body appearance the same. Create a ''
        @ ''visually stunning composition with artistic lighting, creative pose vari''
        @ ''ations, and dramatic background elements. Apply mood and atmosphere thro''
        @ ''ugh sophisticated color grading and artistic ambiance for a truly artist''
        @ ''ic result.'',
      ''VISUAL ARTWORK ''
        @ numberToString index
        @ '': Transform the person's clothing to the uploaded items while preserving''
        @ '' their facial features and body structure. Craft an artistic visual expe''
        @ ''rience with creative lighting setups, dynamic pose expressions, and arti''
        @ ''stic background transformations. Incorporate advanced photography techni''
        @ ''ques including selective focus, artistic bokeh, and creative composition''
        @ '' for a masterpiece result.'',
      ''ARTISTIC ENHANCEMENT ''
        @ numberToString index
        @ '': Replace the person's current clothing with the uploaded clothing items''
        @ '', maintaining their face and body unchanged. Create an artistic visual n''
        @ ''arrative with dramatic lighting, creative shadow play, and sophisticated''
        @ '' composition. Apply color theory principles and artistic depth of field ''
        @ ''effects for a creatively enhanced, visually stunning image.'',
      ''CINEMATIC TRANSFORMATION ''
        @ numberToString index
        @ '': Replace the person's current clothing with the uploaded clothing items''
        @ '' while preserving their face and body exactly. Create a cinematic master''
        @ ''piece with dramatic film lighting, atmospheric effects, and storytelling''
        @ '' composition. Use advanced cinematography techniques including depth of ''
        @ ''field, creative framing, and mood lighting for a movie-quality result.'',
      ''FASHION EDITORIAL ''
        @ numberToString index
        @ '': Transform the person's clothing to the uploaded items, keeping their f''
        @ ''ace and body unchanged. Create a high-fashion editorial scene with drama''
        @ ''tic studio lighting, artistic poses, and sophisticated composition. Appl''
        @ ''y fashion photography techniques including creative lighting, artistic s''
        @ ''hadows, and professional styling for a magazine-quality result.'',
      ''STREET ART MASTERPIECE ''
        @ numberToString index
        @ '': Replace the person's current clothing with the uploaded clothing items''
        @ '' while maintaining their face and body. Create a vibrant street photogra''
        @ ''phy scene with urban graffiti backgrounds, dynamic poses, and authentic ''
        @ ''street aesthetics. Use creative urban lighting, candid photography techn''
        @ ''iques, and artistic street elements for a dynamic result.'',
      ''VINTAGE GLAMOUR ''
        @ numberToString index
        @ '': Transform the person's clothing to the uploaded items, preserving thei''
        @ ''r face and body exactly. Create a nostalgic vintage scene with period-ap''
        @ ''propriate styling, artistic film grain effects, and classic photography ''
        @ ''techniques. Apply vintage color grading, retro aesthetics, and timeless ''
        @ ''composition for a nostalgic masterpiece.'',
      ''MINIMALIST ELEGANCE ''
        @ numberToString index
        @ '': Replace the person's current clothing with the uploaded clothing items''
        @ '' while keeping their face and body unchanged. Create a clean, minimalist''
        @ '' composition with sophisticated negative space, artistic simplicity, and''
        @ '' maximum visual impact. Use creative minimalism, elegant lighting, and s''
        @ ''ophisticated composition for a refined result.'',
      ''PROFESSIONAL SOPHISTICATION ''
        @ numberToString index
        @ '': Transform the person's clothing to the uploaded items, maintaining the''
        @ ''ir face and body exactly. Create a professional corporate scene with sop''
        @ ''histicated business aesthetics, polished lighting, and executive photogr''
        @ ''aphy techniques. Apply corporate styling, professional composition, and ''
        @ ''refined business aesthetics for a polished result.'']"

definition server_createPromptVariation :: "string \<Rightarrow> int \<Rightarrow> string option" where
  \<comment> \<open>server.js lines 469-478. A negative remainder names no element of the array and the
      result is \<open>undefined\<close>, here \<open>None\<close>.\<close>
  "server_createPromptVariation basePrompt index =
     (let creativeVariations = server_creativeVariations index;
          r = remainder index (int (length creativeVariations))
      in if 0 \<le> r then Some (creativeVariations ! nat r) else None)"

definition part000_createPromptVariation :: "string \<Rightarrow> int \<Rightarrow> string option" where
  \<comment> \<open>part_000 lines 622-637\<close>
  "part000_createPromptVariation basePrompt index =
     (let creativeVariations = part000_creativeVariations index;
          r = remainder index (int (length creativeVariations))
      in if 0 \<le> r then Some (creativeVariations ! nat r) else None)"

section \<open>The parser of server.js\<close>

definition cleanStructured :: "string \<Rightarrow> string" where
  \<comment> \<open>what the first loop does to a match: server.js lines 391-398, part_000 lines 489-496\<close>
  "cleanStructured m = removeEmphasis (trim (removeHeader (trim m)))"

definition cleanPlain :: "string \<Rightarrow> string" where
  \<comment> \<open>\<open>trim\<close>, then the two emphasis replacements: server.js lines 443-447, part_000
      lines 515-519, 538-542 and 581-585\<close>
  "cleanPlain piece = removeEmphasis (trim piece)"

definition slice0 :: "'a list \<Rightarrow> int \<Rightarrow> 'a list" where
  \<comment> \<open>\<open>xs.slice(0, k)\<close>; a negative \<open>k\<close> counts from the end\<close>
  "slice0 xs k = (if k < 0 then take (nat (int (length xs) + k)) xs else take (nat k) xs)"

definition basePrompt :: "string list \<Rightarrow> string \<Rightarrow> string" where
  \<comment> \<open>\<open>prompts[0] || promptText\<close>: \<open>undefined\<close> and the empty string are falsy\<close>
  "basePrompt prompts promptText =
     (case prompts of [] \<Rightarrow> promptText | p # _ \<Rightarrow> if p = [] then promptText else p)"

fun server_collect ::
  "(string \<Rightarrow> string) \<Rightarrow> int \<Rightarrow> string list \<Rightarrow> string list \<Rightarrow> string list" where
  \<comment> \<open>The loops of server.js lines 390-404, 412-418 and 442-453:
      \<open>for (i; i < pieces.length && prompts.length < expectedCount; i++)\<close> with the body
      \<open>prompt = clean(pieces[i]); if (prompt.length > 100) prompts.push(prompt)\<close>.\<close>
  "server_collect clean expectedCount [] prompts = prompts"
| "server_collect clean expectedCount (piece # pieces) prompts =
     (if int (length prompts) < expectedCount
      then (let prompt = clean piece
            in server_collect clean expectedCount pieces
                 (if 100 < length prompt then prompts @ [prompt] else prompts))
      else prompts)"

definition server_structured :: "string \<Rightarrow> int \<Rightarrow> string list \<Rightarrow> string list" where
  \<comment> \<open>server.js lines 386-405\<close>
  "server_structured promptText expectedCount prompts =
     server_collect cleanStructured expectedCount (structuredPrompts promptText) prompts"

definition server_numbered :: "string \<Rightarrow> int \<Rightarrow> string list \<Rightarrow> string list" where
  \<comment> \<open>server.js lines 408-420: the loop starts at index 1\<close>
  "server_numbered promptText expectedCount prompts =
     (if int (length prompts) < expectedCount
      then (let pieces = numberedSplit promptText
            in if 1 < length pieces then server_collect trim expectedCount (tl pieces) prompts
               else prompts)
      else prompts)"

definition server_mainContent :: "string \<Rightarrow> int \<Rightarrow> string list \<Rightarrow> string list" where
  \<comment> \<open>server.js lines 423-436\<close>
  "server_mainContent promptText expectedCount prompts =
     (if int (length prompts) < expectedCount
      then (let mainContent = trim (stripMarkup promptText)
            in if 100 < length mainContent then prompts @ [mainContent] else prompts)
      else prompts)"

definition server_paragraphs :: "string \<Rightarrow> int \<Rightarrow> string list \<Rightarrow> string list" where
  \<comment> \<open>server.js lines 439-454\<close>
  "server_paragraphs promptText expectedCount prompts =
     (if int (length prompts) < expectedCount
      then server_collect cleanPlain expectedCount (paragraphSplit promptText) prompts
      else prompts)"

definition server_extract :: "string \<Rightarrow> int \<Rightarrow> string list" where
  \<comment> \<open>the four stages in the order of the source, on one growing list\<close>
  "server_extract promptText expectedCount =
     server_paragraphs promptText expectedCount
       (server_mainContent promptText expectedCount
         (server_numbered promptText expectedCount
           (server_structured promptText expectedCount [])))"

function server_pad :: "string \<Rightarrow> int \<Rightarrow> string list \<Rightarrow> error + string list" where
  \<comment> \<open>The loop of server.js lines 457-462. \<open>variation.substring\<close> in its last line throws
      a TypeError when the variation is \<open>undefined\<close>.\<close>
  "server_pad promptText expectedCount prompts =
     (if int (length prompts) < expectedCount
      then (case server_createPromptVariation (basePrompt prompts promptText)
                   (int (length prompts) + 1) of
              None \<Rightarrow> Inl TypeError
            | Some variation \<Rightarrow> server_pad promptText expectedCount (prompts @ [variation]))
      else Inr prompts)"
  by pat_completeness auto
termination
  by (relation "measure (\<lambda>(promptText, expectedCount, prompts).
        nat (expectedCount - int (length prompts)))") auto

definition server_parseMultiplePrompts :: "string \<Rightarrow> int \<Rightarrow> error + string list" where
  \<comment> \<open>server.js lines 379-466\<close>
  "server_parseMultiplePrompts promptText expectedCount =
     (case server_pad promptText expectedCount (server_extract promptText expectedCount) of
        Inl e \<Rightarrow> Inl e
      | Inr prompts \<Rightarrow> Inr (slice0 prompts expectedCount))"

section \<open>The parser of part_000\<close>

text \<open>
  The state of this parser is the pair of the array \<open>prompts\<close> and the set \<open>seenPrompts\<close>
  of the normalized prompts added so far.
\<close>

fun part000_collect ::
  "(string \<Rightarrow> string) \<Rightarrow> int \<Rightarrow> string list \<Rightarrow> string list \<times> string set
     \<Rightarrow> string list \<times> string set" where
  \<comment> \<open>The loops of part_000 lines 488-506, 514-529, 537-552 and 580-595: as in server.js,
      with the test \<open>prompt.length > 100 && !seenPrompts.has(normalizedPrompt)\<close>.\<close>
  "part000_collect clean expectedCount [] state = state"
| "part000_collect clean expectedCount (piece # pieces) (prompts, seenPrompts) =
     (if int (length prompts) < expectedCount
      then (let prompt = clean piece; normalizedPrompt = normalize prompt
            in part000_collect clean expectedCount pieces
                 (if 100 < length prompt \<and> normalizedPrompt \<notin> seenPrompts
                  then (prompts @ [prompt], insert normalizedPrompt seenPrompts)
                  else (prompts, seenPrompts)))
      else (prompts, seenPrompts))"

definition part000_structured ::
  "string \<Rightarrow> int \<Rightarrow> string list \<times> string set \<Rightarrow> string list \<times> string set" where
  \<comment> \<open>part_000 lines 484-507\<close>
  "part000_structured promptText expectedCount state =
     part000_collect cleanStructured expectedCount (structuredPrompts promptText) state"

definition part000_sections ::
  "string \<Rightarrow> int \<Rightarrow> string list \<times> string set \<Rightarrow> string list \<times> string set" where
  \<comment> \<open>part_000 lines 510-530: the loop starts at index 1\<close>
  "part000_sections promptText expectedCount state =
     (if int (length (fst state)) < expectedCount
      then part000_collect cleanPlain expectedCount (tl (promptSections promptText)) state
      else state)"

definition part000_numbered ::
  "string \<Rightarrow> int \<Rightarrow> string list \<times> string set \<Rightarrow> string list \<times> string set" where
  \<comment> \<open>part_000 lines 533-554: the loop starts at index 1\<close>
  "part000_numbered promptText expectedCount state =
     (if int (length (fst state)) < expectedCount
      then (let pieces = numberedSplit promptText
            in if 1 < length pieces
               then part000_collect cleanPlain expectedCount (tl pieces) state
               else state)
      else state)"

definition part000_mainContent ::
  "string \<Rightarrow> int \<Rightarrow> string list \<times> string set \<Rightarrow> string list \<times> string set" where
  \<comment> \<open>part_000 lines 557-574\<close>
  "part000_mainContent promptText expectedCount state =
     (if int (length (fst state)) < expectedCount
      then (let mainContent = trim (stripMarkup promptText);
                normalizedContent = normalize mainContent
            in if 100 < length mainContent \<and> normalizedContent \<notin> snd state
               then (fst state @ [mainContent], insert normalizedContent (snd state))
               else state)
      else state)"

definition part000_paragraphs ::
  "string \<Rightarrow> int \<Rightarrow> string list \<times> string set \<Rightarrow> string list \<times> string set" where
  \<comment> \<open>part_000 lines 577-596\<close>
  "part000_paragraphs promptText expectedCount state =
     (if int (length (fst state)) < expectedCount
      then part000_collect cleanPlain expectedCount (paragraphSplit promptText) state
      else state)"

definition part000_extract :: "string \<Rightarrow> int \<Rightarrow> string list \<times> string set" where
  \<comment> \<open>the five stages in the order of the source, on one growing state\<close>
  "part000_extract promptText expectedCount =
     part000_paragraphs promptText expectedCount
       (part000_mainContent promptText expectedCount
         (part000_numbered promptText expectedCount
           (part000_sections promptText expectedCount
             (part000_structured promptText expectedCount ([], {})))))"

function part000_pad ::
  "string \<Rightarrow> int \<Rightarrow> string list \<times> string set \<Rightarrow> error + string list \<times> string set" where
  \<comment> \<open>The loop of part_000 lines 599-615, which leaves at the first variation whose
      normalized text is in \<open>seenPrompts\<close>. \<open>variation.toLowerCase\<close> throws a TypeError
      when the variation is \<open>undefined\<close>.\<close>
  "part000_pad promptText expectedCount (prompts, seenPrompts) =
     (if int (length prompts) < expectedCount
      then (case part000_createPromptVariation (basePrompt prompts promptText)
                   (int (length prompts) + 1) of
              None \<Rightarrow> Inl TypeError
            | Some variation \<Rightarrow>
                (let normalizedVariation = normalize variation
                 in if normalizedVariation \<notin> seenPrompts
                    then part000_pad promptText expectedCount
                           (prompts @ [variation], insert normalizedVariation seenPrompts)
                    else Inr (prompts, seenPrompts)))
      else Inr (prompts, seenPrompts))"
  by pat_completeness auto
termination
  by (relation "measure (\<lambda>(promptText, expectedCount, prompts, seenPrompts).
        nat (expectedCount - int (length prompts)))") auto

definition part000_parseMultiplePrompts :: "string \<Rightarrow> int \<Rightarrow> error + string list" where
  \<comment> \<open>part_000 lines 476-619\<close>
  "part000_parseMultiplePrompts promptText expectedCount =
     (case part000_pad promptText expectedCount (part000_extract promptText expectedCount) of
        Inl e \<Rightarrow> Inl e
      | Inr (prompts, seenPrompts) \<Rightarrow> Inr (slice0 prompts expectedCount))"

section \<open>Notions and texts for the properties\<close>

text \<open>
  What the statements below need beside the program: the invariant of \<open>seenPrompts\<close>,
  two predicates on texts, and the texts at which the parsers are evaluated.
\<close>

definition seenInvariant :: "string list \<times> string set \<Rightarrow> bool" where
  \<comment> \<open>\<open>seenPrompts\<close> holds the normalized prompts, and no two prompts share one\<close>
  "seenInvariant state =
     (snd state = set (map normalize (fst state)) \<and> distinct (map normalize (fst state)))"

fun oneStarPerLine :: "bool \<Rightarrow> string \<Rightarrow> bool" where
  \<comment> \<open>no line of the text has two stars; the flag says that the current line had one\<close>
  "oneStarPerLine seen [] = True"
| "oneStarPerLine seen (c # cs) =
     (if c = star then \<not> seen \<and> oneStarPerLine True cs
      else if isLineTerminator c then oneStarPerLine False cs
      else oneStarPerLine seen cs)"

definition headerStart :: "char \<Rightarrow> bool" where
  \<comment> \<open>the characters that one of the four headers can start with\<close>
  "headerStart c = (canonicalize c \<in> {CHR ''#'', CHR ''P'', CHR ''I''})"

definition visualArtwork2 :: string where
  \<comment> \<open>the third template of part_000 (line 626) with index 2\<close>
  "visualArtwork2 =
     ''VISUAL ARTWORK 2: Transform the person's clothing to the uploaded items while ''
       @ ''preserving their facial features and body structure. Craft an artistic visual ''
       @ ''experience with creative lighting setups, dynamic pose expressions, and artist''
       @ ''ic background transformations. Incorporate advanced photography techniques inc''
       @ ''luding selective focus, artistic bokeh, and creative composition for a masterp''
       @ ''iece result.''"

definition artisticEnhancement3 :: string where
  \<comment> \<open>the fourth template of server.js (line 474) with index 3\<close>
  "artisticEnhancement3 =
     ''ARTISTIC ENHANCEMENT 3: Replace the person's current clothing with the uploade''
       @ ''d clothing items, maintaining their face and body unchanged. Create an artisti''
       @ ''c visual narrative with dramatic lighting, creative shadow play, and sophistic''
       @ ''ated composition. Apply color theory principles and artistic depth of field ef''
       @ ''fects for a creatively enhanced, visually stunning image.''"

definition numberedItem :: "int \<Rightarrow> char \<Rightarrow> string" where
  \<comment> \<open>a numbered segment of 123 code units on a line of its own\<close>
  "numberedItem k c = numberToString k @ ''. '' @ replicate 120 c @ [CHR 0x0A]"

definition tenNumberedSegments :: string where
  \<comment> \<open>the segments 1 to 10, one per line, with nothing in front of the first\<close>
  "tenNumberedSegments =
     concat (map (\<lambda>(k, c). numberedItem k c) (zip [1..10] ''abcdefghjk''))"

definition fromFourthSegment :: string where
  \<comment> \<open>the segments 4 to 10 of \<open>tenNumberedSegments\<close>\<close>
  "fromFourthSegment =
     concat (map (\<lambda>(k, c). numberedItem k c) (zip [4..10] ''defghjk''))"

text \<open>
  For the threshold, the candidates of a text as the stages offer them: in the order of
  the cascade, each one trimmed and freed of its markup. The loops of both files do this
  with \<open>cleanStructured\<close> and \<open>cleanPlain\<close>; the one exception, the loop over the numbered
  items in server.js, which only trims, agrees with \<open>cleanPlain\<close> on the items
  without a star, and \<open>plainNumberedItems\<close> singles out the texts with such items.
\<close>

definition server_candidates :: "string \<Rightarrow> string list" where
  \<comment> \<open>headers, numbered items, whole text, paragraphs\<close>
  "server_candidates promptText =
     map cleanStructured (structuredPrompts promptText)
       @ map cleanPlain (tl (numberedSplit promptText))
       @ [trim (stripMarkup promptText)]
       @ map cleanPlain (paragraphSplit promptText)"

definition part000_candidates :: "string \<Rightarrow> string list" where
  \<comment> \<open>headers, \<open>### Prompt\<close> sections, numbered items, whole text, paragraphs\<close>
  "part000_candidates promptText =
     map cleanStructured (structuredPrompts promptText)
       @ map cleanPlain (tl (promptSections promptText))
       @ map cleanPlain (tl (numberedSplit promptText))
       @ [trim (stripMarkup promptText)]
       @ map cleanPlain (paragraphSplit promptText)"

definition plainNumberedItems :: "string \<Rightarrow> bool" where
  \<comment> \<open>no numbered item of the text, from the second piece of the split on, has a star\<close>
  "plainNumberedItems promptText =
     (\<forall>piece \<in> set (tl (numberedSplit promptText)). star \<notin> set piece)"

fun firstByNormalized :: "string set \<Rightarrow> string list \<Rightarrow> string list" where
  \<comment> \<open>the list without the entries whose normalized form is in \<open>seen\<close> or belongs to an
      earlier entry that was kept\<close>
  "firstByNormalized seen [] = []"
| "firstByNormalized seen (p # ps) =
     (if normalize p \<in> seen then firstByNormalized seen ps
      else p # firstByNormalized (insert (normalize p) seen) ps)"

definition offer ::
  "int \<Rightarrow> string list \<Rightarrow> string list \<times> string set \<Rightarrow> string list \<times> string set" where
  \<comment> \<open>a state of part_000 after cleaned candidates were offered to it: those longer than
      100 and new by their normalized form are added while there is room\<close>
  "offer expectedCount candidates state =
     (let added = take (nat (expectedCount - int (length (fst state))))
                    (firstByNormalized (snd state) (filter (\<lambda>p. 100 < length p) candidates))
      in (fst state @ added, snd state \<union> set (map normalize added)))"

section \<open>Character classes on the bits of a code unit\<close>

text \<open>
  The same classes, read off the eight bits of the code unit (lowest bit first). Each
  equation is checked on all 256 code units; evaluation uses them.
\<close>

lemma isWhiteSpace_bits [code]:
  "isWhiteSpace (Char b0 b1 b2 b3 b4 b5 b6 b7) =
     (if b5 then \<not> b0 \<and> \<not> b1 \<and> \<not> b2 \<and> \<not> b3 \<and> \<not> b4 \<and> \<not> b6
      else b3 \<and> \<not> b4 \<and> \<not> b6 \<and> \<not> b7 \<and> (b0 \<or> b1 \<or> b2) \<and> \<not> (b1 \<and> b2))"
  unfolding isWhiteSpace_def
  by (cases b0; cases b1; cases b2; cases b3; cases b4; cases b5; cases b6; cases b7) simp_all

lemma isDigit_bits [code]:
  "isDigit (Char b0 b1 b2 b3 b4 b5 b6 b7) =
     (b4 \<and> b5 \<and> \<not> b6 \<and> \<not> b7 \<and> \<not> (b3 \<and> (b1 \<or> b2)))"
  unfolding isDigit_def
  by (cases b0; cases b1; cases b2; cases b3; cases b4; cases b5; cases b6; cases b7) simp_all

lemma canonicalize_bits [code]:
  "canonicalize (Char b0 b1 b2 b3 b4 b5 b6 b7) =
     (if b5 \<and> b6 \<and> \<not> b7 \<and> (b0 \<or> b1 \<or> b2 \<or> b3 \<or> b4) \<and> \<not> (b3 \<and> b4 \<and> (b2 \<or> (b0 \<and> b1)))
      then Char b0 b1 b2 b3 b4 False b6 b7
      else Char b0 b1 b2 b3 b4 b5 b6 b7)"
  unfolding canonicalize_def
  by (cases b0; cases b1; cases b2; cases b3; cases b4; cases b5; cases b6; cases b7) simp_all

lemma toLowerCaseChar_bits [code]:
  "toLowerCaseChar (Char b0 b1 b2 b3 b4 b5 b6 b7) =
     (if \<not> b5 \<and> b6 \<and> (if b7 then \<not> (b0 \<and> b1 \<and> b2 \<and> b4)
                           else (b0 \<or> b1 \<or> b2 \<or> b3 \<or> b4) \<and> \<not> (b3 \<and> b4 \<and> (b2 \<or> (b0 \<and> b1))))
      then Char b0 b1 b2 b3 b4 True b6 b7
      else Char b0 b1 b2 b3 b4 b5 b6 b7)"
  unfolding toLowerCaseChar_def
  by (cases b0; cases b1; cases b2; cases b3; cases b4; cases b5; cases b6; cases b7)
     (simp_all add: Let_def)

section \<open>The expressions at work\<close>

text \<open>
  Small texts show what the expressions of the source do. A header with text behind it
  is no match of the first expression; only \<open>Prompt for AI Image Editing\<close> takes the text
  up to the next header along.
\<close>

lemma structuredPrompts_examples:
  "structuredPrompts ''Prompt 1: a red coat'' = []"
  "structuredPrompts ''### Prompt 1:Image 2:'' = [''### Prompt 1:'', ''Image 2:'']"
  "structuredPrompts ''x prompt for ai image editing: red. Prompt 2: blue. image:''
     = [''prompt for ai image editing: red. '', ''image:'']"
  by code_simp+

lemma replace_examples:
  "removeHeader ''### prompt 12:  x'' = ''  x''"
  "removeHeader '' Prompt 1: x'' = '' Prompt 1: x''"
  "removeBold ''***a*** and **b** *c'' = ''*a* and b *c''"
  "removeItalic ''*a* and b *c'' = ''a and b *c''"
  "removeItalic [star, CHR ''a'', CHR 0x0A, CHR ''b'', star]
     = [star, CHR ''a'', CHR 0x0A, CHR ''b'', star]"
  "normalize [CHR '' '', CHR ''A'', CHR 0x09, CHR 0x0A, CHR ''b'', CHR '' ''] = ''a b''"
  by code_simp+

lemma split_examples:
  "promptSections ''a### Prompt 1: b ###prompt:'' = [''a'', '' b '', []]"
  "numberedSplit ''1. a 2. b 10. c'' = [''1. a '', ''2. b '', ''1'', ''0. c'']"
  "numberedSplit ''x 1. a 2.b'' = [''x '', ''1. a 2.b'']"
  "paragraphSplit [CHR ''a'', CHR 0x0A, CHR '' '', CHR 0x0A, CHR '' '', CHR ''b'', CHR 0x0A, CHR ''c'']
     = [''a'', [CHR '' '', CHR ''b'', CHR 0x0A, CHR ''c'']]"
  by code_simp+

section \<open>The variations do not read the base prompt\<close>

lemma variation_examples:
  "server_createPromptVariation ''a red coat'' 5 = Some (server_creativeVariations 5 ! 1)"
  "take 22 (server_creativeVariations 12 ! 1) = ''CREATIVE MASTERPIECE 1''"
  "server_createPromptVariation ''a red coat'' (- 4) = Some (server_creativeVariations (- 4) ! 0)"
  "server_createPromptVariation ''a red coat'' (- 3) = None"
  "part000_createPromptVariation ''a red coat'' 14 = Some (part000_creativeVariations 14 ! 4)"
  by code_simp+

lemma remainder_nonneg: "0 \<le> i \<Longrightarrow> 0 < n \<Longrightarrow> remainder i n = i mod n"
  by (simp add: remainder_def)

lemma length_server_creativeVariations: "length (server_creativeVariations i) = 4"
  by (simp add: server_creativeVariations_def)

lemma length_part000_creativeVariations: "length (part000_creativeVariations i) = 10"
  by (simp add: part000_creativeVariations_def)

lemma server_createPromptVariation_nonneg:
  "0 \<le> i \<Longrightarrow>
     server_createPromptVariation b i = Some (server_creativeVariations i ! (nat i mod 4))"
  by (simp add: server_createPromptVariation_def Let_def length_server_creativeVariations
        remainder_nonneg nat_mod_distrib)

lemma part000_createPromptVariation_nonneg:
  "0 \<le> i \<Longrightarrow>
     part000_createPromptVariation b i = Some (part000_creativeVariations i ! (nat i mod 10))"
  by (simp add: part000_createPromptVariation_def Let_def length_part000_creativeVariations
        remainder_nonneg nat_mod_distrib)

text \<open>
  Claim C6. In both files \<open>createPromptVariation\<close> returns the same value for any two
  base prompts and any integer index: the base prompt is not read. The value is the
  element of the fixed array (4 templates in server.js, 10 in part_000) at the index
  modulo the length of the array, for every index from 0 on.
\<close>

theorem createPromptVariation_ignores_basePrompt:
  "server_createPromptVariation b1 i = server_createPromptVariation b2 i
   \<and> part000_createPromptVariation b1 i = part000_createPromptVariation b2 i
   \<and> (0 \<le> i \<longrightarrow>
        server_createPromptVariation b1 i
          = Some (server_creativeVariations i ! (nat i mod length (server_creativeVariations i)))
      \<and> part000_createPromptVariation b1 i
          = Some (part000_creativeVariations i
                    ! (nat i mod length (part000_creativeVariations i))))"
  by (simp add: server_createPromptVariation_nonneg part000_createPromptVariation_nonneg
        length_server_creativeVariations length_part000_creativeVariations)
    (simp add: server_createPromptVariation_def part000_createPromptVariation_def)

theorem createPromptVariation_ignores_basePrompt_witness:
  "server_createPromptVariation ''a red coat'' 6 = server_createPromptVariation ''a hat'' 6
   \<and> part000_createPromptVariation ''a red coat'' 6
       = part000_createPromptVariation ''a hat'' 6
   \<and> (0::int) \<le> 6
   \<and> server_createPromptVariation ''a red coat'' 6 = Some (server_creativeVariations 6 ! 2)
   \<and> part000_createPromptVariation ''a red coat'' 6 = Some (part000_creativeVariations 6 ! 6)"
  using createPromptVariation_ignores_basePrompt [of "''a red coat''" 6 "''a hat''"]
  by (auto simp: length_server_creativeVariations length_part000_creativeVariations)

section \<open>The padding loops and the duplicate filter\<close>

lemma server_variation_defined:
  "\<exists>v. server_createPromptVariation b (int k + 1) = Some v"
  by (simp add: server_createPromptVariation_nonneg)

lemma part000_variation_defined:
  "\<exists>v. part000_createPromptVariation b (int k + 1) = Some v"
  by (simp add: part000_createPromptVariation_nonneg)

lemma server_pad_done: "\<not> int (length ps) < n \<Longrightarrow> server_pad t n ps = Inr ps"
  by (subst server_pad.simps) simp

lemma server_pad_step:
  "int (length ps) < n \<Longrightarrow>
   server_createPromptVariation (basePrompt ps t) (int (length ps) + 1) = Some v \<Longrightarrow>
   server_pad t n ps = server_pad t n (ps @ [v])"
  by (subst server_pad.simps) simp

lemma part000_pad_done:
  "\<not> int (length ps) < n \<Longrightarrow> part000_pad t n (ps, seen) = Inr (ps, seen)"
  by (subst part000_pad.simps) simp

lemma part000_pad_step:
  "int (length ps) < n \<Longrightarrow>
   part000_createPromptVariation (basePrompt ps t) (int (length ps) + 1) = Some v \<Longrightarrow>
   part000_pad t n (ps, seen) =
     (if normalize v \<in> seen then Inr (ps, seen)
      else part000_pad t n (ps @ [v], insert (normalize v) seen))"
  by (subst part000_pad.simps) (simp add: Let_def)

lemma server_pad_returns:
  "\<exists>ps'. server_pad t n ps = Inr ps'
     \<and> (if int (length ps) < n then int (length ps') = n else ps' = ps)"
proof (induction t n ps rule: server_pad.induct)
  case (1 t n ps)
  show ?case
  proof (cases "int (length ps) < n")
    case False
    then show ?thesis by simp
  next
    case True
    obtain v where v: "server_createPromptVariation (basePrompt ps t) (int (length ps) + 1) = Some v"
      using server_variation_defined by blast
    from "1.IH" [OF True v] obtain ps' where ps': "server_pad t n (ps @ [v]) = Inr ps'"
      and len: "if int (length (ps @ [v])) < n then int (length ps') = n else ps' = ps @ [v]"
      by blast
    have "server_pad t n ps = Inr ps'"
      using True v ps' by (subst server_pad.simps) simp
    moreover have "int (length ps') = n"
      using len True by (auto split: if_splits)
    ultimately show ?thesis using True by simp
  qed
qed

lemma seenInvariant_push:
  "seenInvariant (ps, seen) \<Longrightarrow> normalize p \<notin> seen
     \<Longrightarrow> seenInvariant (ps @ [p], insert (normalize p) seen)"
  by (auto simp: seenInvariant_def)

lemma part000_pad_returns:
  "\<exists>ps' seen'. part000_pad t n (ps, seen) = Inr (ps', seen')
     \<and> (seenInvariant (ps, seen) \<longrightarrow> seenInvariant (ps', seen'))
     \<and> (if int (length ps) < n
         then int (length ps') \<le> n
           \<and> (int (length ps') < n \<longrightarrow>
                (\<exists>v. part000_createPromptVariation (basePrompt ps' t) (int (length ps') + 1)
                       = Some v \<and> normalize v \<in> seen'))
         else ps' = ps \<and> seen' = seen)"
proof (induction t n "(ps, seen)" arbitrary: ps seen rule: part000_pad.induct)
  case (1 t n ps seen)
  show ?case
  proof (cases "int (length ps) < n")
    case False
    then show ?thesis by simp
  next
    case True
    obtain v where v: "part000_createPromptVariation (basePrompt ps t) (int (length ps) + 1) = Some v"
      using part000_variation_defined by blast
    show ?thesis
    proof (cases "normalize v \<in> seen")
      case dup: True
      have "part000_pad t n (ps, seen) = Inr (ps, seen)"
        using True v dup by (subst part000_pad.simps) simp
      then show ?thesis using True v dup by auto
    next
      case fresh: False
      from "1.hyps" [OF True v refl fresh]
      obtain ps' seen' where r: "part000_pad t n (ps @ [v], insert (normalize v) seen) = Inr (ps', seen')"
        and inv: "seenInvariant (ps @ [v], insert (normalize v) seen) \<longrightarrow> seenInvariant (ps', seen')"
        and len: "if int (length (ps @ [v])) < n
         then int (length ps') \<le> n
           \<and> (int (length ps') < n \<longrightarrow>
                (\<exists>v. part000_createPromptVariation (basePrompt ps' t) (int (length ps') + 1)
                       = Some v \<and> normalize v \<in> seen'))
         else ps' = ps @ [v] \<and> seen' = insert (normalize v) seen"
        by blast
      have eq: "part000_pad t n (ps, seen) = Inr (ps', seen')"
        using True v fresh r by (subst part000_pad.simps) (simp add: Let_def)
      have i: "seenInvariant (ps, seen) \<longrightarrow> seenInvariant (ps', seen')"
        using inv fresh seenInvariant_push by blast
      have l: "int (length ps') \<le> n
           \<and> (int (length ps') < n \<longrightarrow>
                (\<exists>v. part000_createPromptVariation (basePrompt ps' t) (int (length ps') + 1)
                       = Some v \<and> normalize v \<in> seen'))"
        using len True by (auto split: if_splits)
      show ?thesis using eq i l True by simp
    qed
  qed
qed

lemma part000_collect_invariant:
  "seenInvariant state \<Longrightarrow> seenInvariant (part000_collect clean n pieces state)"
proof (induction pieces arbitrary: state)
  case Nil
  then show ?case by simp
next
  case (Cons piece pieces)
  obtain ps seen where state: "state = (ps, seen)" by (cases state)
  show ?case
  proof (cases "int (length ps) < n")
    case False
    with Cons.prems state show ?thesis by simp
  next
    case True
    let ?p = "clean piece"
    show ?thesis
    proof (cases "100 < length ?p \<and> normalize ?p \<notin> seen")
      case True
      with Cons.prems state have "seenInvariant (ps @ [?p], insert (normalize ?p) seen)"
        by (simp add: seenInvariant_push)
      from Cons.IH [OF this] show ?thesis
        using state True \<open>int (length ps) < n\<close> by (simp add: Let_def)
    next
      case False
      from Cons.IH [OF Cons.prems] show ?thesis
        using state False \<open>int (length ps) < n\<close> by (auto simp: Let_def)
    qed
  qed
qed

lemma part000_mainContent_invariant:
  "seenInvariant state \<Longrightarrow> seenInvariant (part000_mainContent t n state)"
  unfolding part000_mainContent_def Let_def
  using seenInvariant_push [of "fst state" "snd state"] by auto

lemma part000_extract_invariant: "seenInvariant (part000_extract t n)"
proof -
  have "seenInvariant ([], {})" by (simp add: seenInvariant_def)
  then have "seenInvariant (part000_structured t n ([], {}))"
    unfolding part000_structured_def by (rule part000_collect_invariant)
  then have "seenInvariant (part000_sections t n (part000_structured t n ([], {})))"
    unfolding part000_sections_def by (simp add: part000_collect_invariant)
  then have "seenInvariant (part000_numbered t n
      (part000_sections t n (part000_structured t n ([], {}))))"
    unfolding part000_numbered_def by (simp add: part000_collect_invariant Let_def)
  then have "seenInvariant (part000_mainContent t n (part000_numbered t n
      (part000_sections t n (part000_structured t n ([], {})))))"
    by (rule part000_mainContent_invariant)
  then show ?thesis
    unfolding part000_extract_def part000_paragraphs_def
    by (simp add: part000_collect_invariant)
qed

lemma slice0_whole: "int (length ps) \<le> n \<Longrightarrow> slice0 ps n = ps"
  by (simp add: slice0_def)

lemma distinct_slice0: "distinct (map f ps) \<Longrightarrow> distinct (map f (slice0 ps n))"
  by (simp add: slice0_def take_map [symmetric])

lemma part000_parse_result:
  "\<exists>rs. part000_parseMultiplePrompts t n = Inr rs
     \<and> distinct (map normalize rs)
     \<and> (0 \<le> n \<longrightarrow> int (length rs) \<le> n)
     \<and> (int (length rs) < n \<longrightarrow>
          (\<exists>v. part000_createPromptVariation (basePrompt rs t) (int (length rs) + 1) = Some v
              \<and> normalize v \<in> set (map normalize rs)))"
proof -
  obtain ps0 seen0 where e: "part000_extract t n = (ps0, seen0)"
    by (cases "part000_extract t n")
  have inv0: "seenInvariant (ps0, seen0)"
    using part000_extract_invariant [of t n] e by simp
  from part000_pad_returns [of t n ps0 seen0]
  obtain ps seen where r: "part000_pad t n (ps0, seen0) = Inr (ps, seen)"
    and inv: "seenInvariant (ps0, seen0) \<longrightarrow> seenInvariant (ps, seen)"
    and len: "if int (length ps0) < n
         then int (length ps) \<le> n
           \<and> (int (length ps) < n \<longrightarrow>
                (\<exists>v. part000_createPromptVariation (basePrompt ps t) (int (length ps) + 1)
                       = Some v \<and> normalize v \<in> seen))
         else ps = ps0 \<and> seen = seen0"
    by blast
  let ?rs = "slice0 ps n"
  have seen: "seen = set (map normalize ps)" and dist: "distinct (map normalize ps)"
    using inv inv0 by (simp_all add: seenInvariant_def)
  have 1: "part000_parseMultiplePrompts t n = Inr ?rs"
    using e r by (simp add: part000_parseMultiplePrompts_def)
  have 2: "distinct (map normalize ?rs)"
    using dist by (rule distinct_slice0)
  have 3: "0 \<le> n \<longrightarrow> int (length ?rs) \<le> n"
    by (auto simp: slice0_def)
  have 4: "\<exists>v. part000_createPromptVariation (basePrompt ?rs t) (int (length ?rs) + 1) = Some v
              \<and> normalize v \<in> set (map normalize ?rs)"
    if short: "int (length ?rs) < n"
  proof -
    have less: "int (length ps) < n"
      using short by (auto simp: slice0_def split: if_splits)
    then have "?rs = ps" by (simp add: slice0_whole)
    moreover have "\<exists>v. part000_createPromptVariation (basePrompt ps t) (int (length ps) + 1)
                       = Some v \<and> normalize v \<in> seen"
      using len less by (auto split: if_splits)
    ultimately show ?thesis using seen by simp
  qed
  from 1 2 3 4 show ?thesis by blast
qed

lemma server_parse_returns:
  "0 \<le> n \<Longrightarrow> \<exists>ps. server_parseMultiplePrompts t n = Inr ps \<and> int (length ps) = n"
proof -
  assume n: "0 \<le> n"
  from server_pad_returns [of t n "server_extract t n"]
  obtain ps' where r: "server_pad t n (server_extract t n) = Inr ps'"
    and len: "if int (length (server_extract t n)) < n then int (length ps') = n
              else ps' = server_extract t n"
    by blast
  have "n \<le> int (length ps')" using len by (auto split: if_splits)
  then have "int (length (slice0 ps' n)) = n" using n by (simp add: slice0_def)
  then show ?thesis using r by (simp add: server_parseMultiplePrompts_def)
qed

lemma server_parse_total: "\<exists>ps. server_parseMultiplePrompts t n = Inr ps"
  using server_pad_returns [of t n "server_extract t n"]
  by (auto simp: server_parseMultiplePrompts_def)

section \<open>How many prompts come back\<close>

text \<open>
  Claim C1, as amended. For every text and every count from 0 on, the parser of server.js
  returns exactly that many prompts. The parser of part_000 returns at most that many, and
  fewer only when the variation that would come next is, normalized, among the
  normalized prompts it returns: its padding loop has stopped at a duplicate.
\<close>

theorem parseMultiplePrompts_count:
  "0 \<le> n \<Longrightarrow>
     (\<exists>ps. server_parseMultiplePrompts t n = Inr ps \<and> int (length ps) = n)
     \<and> (\<exists>ps. part000_parseMultiplePrompts t n = Inr ps \<and> int (length ps) \<le> n
           \<and> (int (length ps) < n \<longrightarrow>
                (\<exists>v. part000_createPromptVariation (basePrompt ps t) (int (length ps) + 1)
                       = Some v
                     \<and> normalize v \<in> set (map normalize ps))))"
  using server_parse_returns [of n t] part000_parse_result [of t n] by blast

theorem parseMultiplePrompts_count_witness:
  "(0::int) \<le> 3
   \<and> (\<exists>ps. server_parseMultiplePrompts ''a coat'' 3 = Inr ps \<and> int (length ps) = 3)
   \<and> (\<exists>ps. part000_parseMultiplePrompts ''a coat'' 3 = Inr ps \<and> int (length ps) \<le> 3
         \<and> (int (length ps) < 3 \<longrightarrow>
              (\<exists>v. part000_createPromptVariation (basePrompt ps ''a coat'') (int (length ps) + 1)
                     = Some v
                   \<and> normalize v \<in> set (map normalize ps))))"
proof -
  have h: "(0::int) \<le> 3" by simp
  from parseMultiplePrompts_count [OF h, of "''a coat''"] h show ?thesis by blast
qed

text \<open>
  As stated, for both parsers, the claim fails in part_000. The text is the variation with
  index 2: the whole-text stage collects it, the paragraph stage rejects it as a
  duplicate, and the first variation of the padding loop (index 2) is the text itself,
  so the loop stops with one prompt where two were asked for.
\<close>

theorem parseMultiplePrompts_count_counterexample:
  "part000_createPromptVariation visualArtwork2 2 = Some visualArtwork2
   \<and> part000_parseMultiplePrompts visualArtwork2 2 = Inr [visualArtwork2]"
  by code_simp

section \<open>No prompt twice\<close>

text \<open>
  Claim C2, as amended. No two prompts returned by the parser of part_000 have the same
  normalized form, whatever the text and the count.
\<close>

theorem part000_distinct_normalized:
  "part000_parseMultiplePrompts t n = Inr ps \<Longrightarrow> distinct (map normalize ps)"
  using part000_parse_result [of t n] by auto

text \<open>
  The theorem at a text of 101 letters and a count of 2: the paragraph
  stage finds the text again and discards it, and one variation fills the list.
\<close>

theorem part000_distinct_normalized_witness:
  "part000_parseMultiplePrompts (replicate 101 (CHR ''a'')) 2
     = Inr [replicate 101 (CHR ''a''), part000_creativeVariations 2 ! 2]
   \<and> distinct (map normalize [replicate 101 (CHR ''a''), part000_creativeVariations 2 ! 2])"
proof -
  have h: "part000_parseMultiplePrompts (replicate 101 (CHR ''a'')) 2
     = Inr [replicate 101 (CHR ''a''), part000_creativeVariations 2 ! 2]"
    by code_simp
  from part000_distinct_normalized [OF h] h show ?thesis by blast
qed

text \<open>
  As stated the claim fails twice. The parser of server.js returns the same prompt twice
  for a text of 101 letters (whole-text stage, then paragraph stage). And for two header
  blocks with the same content and a count of 2 the parser of part_000 does discard the
  second block, but the second prompt is the whole text without its first header, from
  the whole-text stage: no variation is synthesized.
\<close>

theorem distinct_normalized_counterexample:
  "server_parseMultiplePrompts (replicate 101 (CHR ''a'')) 2
     = Inr [replicate 101 (CHR ''a''), replicate 101 (CHR ''a'')]
   \<and> part000_parseMultiplePrompts
        (''### Prompt 1: '' @ replicate 101 (CHR ''a'') @ [CHR 0x0A]
           @ ''### Prompt 2: '' @ replicate 101 (CHR ''a'')) 2
     = Inr [replicate 101 (CHR ''a''),
            replicate 101 (CHR ''a'') @ [CHR 0x0A] @ ''### Prompt 2: ''
              @ replicate 101 (CHR ''a'')]
   \<and> part000_createPromptVariation (replicate 101 (CHR ''a'')) 2
       \<noteq> Some (replicate 101 (CHR ''a'') @ [CHR 0x0A] @ ''### Prompt 2: ''
              @ replicate 101 (CHR ''a''))"
  by code_simp

text \<open>
  Nor is a block that repeats an earlier one kept out of the result in general. With a
  blank line between the two blocks and a count of 4 the paragraph stage returns both
  once more, each with its header: the headers make the normalized forms differ.
\<close>

lemma identical_blocks_with_their_headers:
  "part000_parseMultiplePrompts
     (''### Prompt 1: '' @ replicate 101 (CHR ''a'') @ [CHR 0x0A, CHR 0x0A]
        @ ''### Prompt 2: '' @ replicate 101 (CHR ''a'')) 4
   = Inr [replicate 101 (CHR ''a''),
          replicate 101 (CHR ''a'') @ [CHR 0x0A, CHR 0x0A] @ ''### Prompt 2: ''
            @ replicate 101 (CHR ''a''),
          ''### Prompt 1: '' @ replicate 101 (CHR ''a''),
          ''### Prompt 2: '' @ replicate 101 (CHR ''a'')]"
  by code_simp

section \<open>When the padding loop stops\<close>

text \<open>
  Claim C3, as amended. In part_000 every pass of the padding loop tests the normalized
  variation against \<open>seenPrompts\<close>: a variation found there ends the loop with the state
  as it is, any other one is added and the loop goes on. The parser always returns a
  list, never an exception; the list is shorter than the count only when the loop
  stopped in this way, that is when the next variation is, normalized, among the
  normalized prompts returned.
\<close>

theorem part000_padding_stops_at_duplicate:
  "(int (length ps) < n
      \<and> part000_createPromptVariation (basePrompt ps t) (int (length ps) + 1) = Some v
     \<longrightarrow> part000_pad t n (ps, seen) =
          (if normalize v \<in> seen then Inr (ps, seen)
           else part000_pad t n (ps @ [v], insert (normalize v) seen)))
   \<and> (\<exists>rs. part000_parseMultiplePrompts t n = Inr rs
         \<and> (int (length rs) < n \<longrightarrow>
              (\<exists>w. part000_createPromptVariation (basePrompt rs t) (int (length rs) + 1)
                     = Some w
                   \<and> normalize w \<in> set (map normalize rs))))"
proof
  show "int (length ps) < n
      \<and> part000_createPromptVariation (basePrompt ps t) (int (length ps) + 1) = Some v
     \<longrightarrow> part000_pad t n (ps, seen) =
          (if normalize v \<in> seen then Inr (ps, seen)
           else part000_pad t n (ps @ [v], insert (normalize v) seen))"
    by (subst part000_pad.simps) (simp add: Let_def)
  show "\<exists>rs. part000_parseMultiplePrompts t n = Inr rs
         \<and> (int (length rs) < n \<longrightarrow>
              (\<exists>w. part000_createPromptVariation (basePrompt rs t) (int (length rs) + 1)
                     = Some w
                   \<and> normalize w \<in> set (map normalize rs)))"
    using part000_parse_result [of t n] by blast
qed

text \<open>
  The theorem where the loop stops: one prompt collected, two asked for, and
  the variation with index 2 already seen.
\<close>

theorem part000_padding_stops_at_duplicate_witness:
  "int (length [visualArtwork2]) < 2
   \<and> part000_createPromptVariation (basePrompt [visualArtwork2] visualArtwork2)
        (int (length [visualArtwork2]) + 1) = Some visualArtwork2
   \<and> part000_pad visualArtwork2 2 ([visualArtwork2], {normalize visualArtwork2})
       = Inr ([visualArtwork2], {normalize visualArtwork2})
   \<and> (\<exists>rs. part000_parseMultiplePrompts visualArtwork2 2 = Inr rs
         \<and> (int (length rs) < 2 \<longrightarrow>
              (\<exists>w. part000_createPromptVariation (basePrompt rs visualArtwork2)
                     (int (length rs) + 1) = Some w
                   \<and> normalize w \<in> set (map normalize rs))))"
proof -
  have h1: "int (length [visualArtwork2]) < 2" by simp
  have h2: "part000_createPromptVariation (basePrompt [visualArtwork2] visualArtwork2)
        (int (length [visualArtwork2]) + 1) = Some visualArtwork2"
    by code_simp
  from part000_padding_stops_at_duplicate
    [of "[visualArtwork2]" 2 visualArtwork2 visualArtwork2 "{normalize visualArtwork2}"]
    h1 h2
  show ?thesis by simp
qed

text \<open>
  As stated the claim fails for the parser of server.js, which has no duplicate filter.
  The text is the variation with index 3: the whole-text stage and the paragraph stage
  both collect it, and the padding loop adds it a third time; nothing stops, and all
  three prompts asked for come back.
\<close>

theorem padding_stops_at_duplicate_counterexample:
  "server_createPromptVariation artisticEnhancement3 3 = Some artisticEnhancement3
   \<and> server_parseMultiplePrompts artisticEnhancement3 3
       = Inr [artisticEnhancement3, artisticEnhancement3, artisticEnhancement3]"
  by code_simp

section \<open>The parsers always return\<close>

text \<open>
  Claim C9. Both parsers return a list for every text and every count (the functions
  of the model are total, each loop with its measure, and the result is never the
  TypeError). A pass of the padding loop with fewer prompts than the count either goes
  on with exactly one more prompt or, in part_000, leaves the loop.
\<close>

theorem parseMultiplePrompts_returns:
  "(\<exists>rs. server_parseMultiplePrompts t n = Inr rs)
   \<and> (\<exists>rs. part000_parseMultiplePrompts t n = Inr rs)
   \<and> (int (length ps) < n \<longrightarrow>
        (\<exists>v. server_pad t n ps = server_pad t n (ps @ [v]))
      \<and> ((\<exists>v. part000_pad t n (ps, seen)
                 = part000_pad t n (ps @ [v], insert (normalize v) seen))
         \<or> part000_pad t n (ps, seen) = Inr (ps, seen)))"
proof (intro conjI impI)
  show "\<exists>rs. server_parseMultiplePrompts t n = Inr rs" by (rule server_parse_total)
  show "\<exists>rs. part000_parseMultiplePrompts t n = Inr rs"
    using part000_parse_result [of t n] by blast
next
  assume less: "int (length ps) < n"
  obtain v where v: "server_createPromptVariation (basePrompt ps t) (int (length ps) + 1) = Some v"
    using server_variation_defined by blast
  have "server_pad t n ps = server_pad t n (ps @ [v])"
    using less v by (subst server_pad.simps) simp
  then show "\<exists>v. server_pad t n ps = server_pad t n (ps @ [v])" ..
next
  assume less: "int (length ps) < n"
  obtain v where v: "part000_createPromptVariation (basePrompt ps t) (int (length ps) + 1) = Some v"
    using part000_variation_defined by blast
  have "part000_pad t n (ps, seen) =
          (if normalize v \<in> seen then Inr (ps, seen)
           else part000_pad t n (ps @ [v], insert (normalize v) seen))"
    using less v by (subst part000_pad.simps) (simp add: Let_def)
  then show "(\<exists>v. part000_pad t n (ps, seen)
                 = part000_pad t n (ps @ [v], insert (normalize v) seen))
         \<or> part000_pad t n (ps, seen) = Inr (ps, seen)"
    by (cases "normalize v \<in> seen") auto
qed

theorem parseMultiplePrompts_returns_witness:
  "(\<exists>rs. server_parseMultiplePrompts ''a coat'' 2 = Inr rs)
   \<and> (\<exists>rs. part000_parseMultiplePrompts ''a coat'' 2 = Inr rs)
   \<and> int (length ([] :: string list)) < 2
   \<and> (\<exists>v. server_pad ''a coat'' 2 [] = server_pad ''a coat'' 2 ([] @ [v]))
   \<and> ((\<exists>v. part000_pad ''a coat'' 2 ([], {})
                 = part000_pad ''a coat'' 2 ([] @ [v], insert (normalize v) {}))
         \<or> part000_pad ''a coat'' 2 ([], {}) = Inr ([], {}))"
proof -
  have h: "int (length ([] :: string list)) < 2" by simp
  from parseMultiplePrompts_returns [of "''a coat''" 2 "[]" "{}"] h show ?thesis by blast
qed

section \<open>Collapsing emphasis twice\<close>

lemma removeBold_unchanged: "oneStarPerLine seen s \<Longrightarrow> removeBold s = s"
proof (induction s arbitrary: seen rule: removeBold.induct)
  case (1 c d r)
  have no: "\<not> (c = star \<and> d = star)"
    using "1.prems" by auto
  obtain seen' where "oneStarPerLine seen' (d # r)"
    using "1.prems" by (cases "c = star"; cases "isLineTerminator c") auto
  with "1.IH"(3) [OF no] have "removeBold (d # r) = d # r" by blast
  with no show ?case by auto
qed simp_all

lemma italicClose_after_star: "oneStarPerLine True s \<Longrightarrow> italicClose s = None"
  by (induction s) (auto split: if_splits)

lemma removeItalic_unchanged: "oneStarPerLine seen s \<Longrightarrow> removeItalic s = s"
proof (induction s arbitrary: seen)
  case Nil
  then show ?case by simp
next
  case (Cons c cs)
  show ?case
  proof (cases "c = star")
    case True
    with Cons.prems have t: "oneStarPerLine True cs" by simp
    from Cons.IH [OF t] italicClose_after_star [OF t] True show ?thesis by simp
  next
    case False
    with Cons.prems obtain seen' where "oneStarPerLine seen' cs"
      by (cases "isLineTerminator c") auto
    from Cons.IH [OF this] False show ?thesis by simp
  qed
qed

lemma italicClose_inner:
  "italicClose s = Some (inner, r) \<Longrightarrow>
     oneStarPerLine seen (inner @ x) = oneStarPerLine seen x"
proof (induction s arbitrary: inner)
  case Nil
  then show ?case by simp
next
  case (Cons c cs)
  show ?case
  proof (cases "c = star")
    case True
    with Cons.prems show ?thesis by simp
  next
    case False
    with Cons.prems obtain inner' where lt: "\<not> isLineTerminator c"
      and i: "italicClose cs = Some (inner', r)" and inner: "inner = c # inner'"
      by (auto split: if_splits option.splits)
    from Cons.IH [OF i] False lt inner show ?thesis by simp
  qed
qed

lemma removeItalic_oneStarPerLine:
  "oneStarPerLine False (removeItalic s)
   \<and> (italicClose s = None \<longrightarrow> oneStarPerLine True (removeItalic s))"
proof (induction s rule: removeItalic.induct)
  case 1
  show ?case by simp
next
  case (2 c cs)
  show ?case
  proof (cases "c = star")
    case True
    show ?thesis
    proof (cases "italicClose cs")
      case None
      with "2.IH"(1) [OF True None] True show ?thesis by simp
    next
      case (Some a)
      obtain inner r where a: "a = (inner, r)" by (cases a)
      from "2.IH"(2) [OF True Some a [symmetric]]
      have "oneStarPerLine False (removeItalic r)" by simp
      then have "oneStarPerLine False (inner @ removeItalic r)"
        using italicClose_inner [of cs inner r] Some a by simp
      with True Some a show ?thesis by simp
    qed
  next
    case False
    with "2.IH"(3) [OF False] show ?thesis
      by (cases "isLineTerminator c") (auto split: option.splits)
  qed
qed

lemma removeEmphasis_unchanged: "oneStarPerLine False s \<Longrightarrow> removeEmphasis s = s"
  by (simp add: removeEmphasis_def removeBold_unchanged removeItalic_unchanged)

lemma removeEmphasis_oneStarPerLine: "oneStarPerLine False (removeEmphasis s)"
  by (simp add: removeEmphasis_def removeItalic_oneStarPerLine)

text \<open>
  Claim C8, as amended. Collapsing the emphasis markers (the \<open>**\<close> replacement, then the
  \<open>*\<close> replacement) is idempotent on every text. The whole stripping, which first removes
  one header at the start, gives the same text when applied a second time provided
  the stripped text does not start with a header again.
\<close>

theorem removeEmphasis_idempotent:
  "removeEmphasis (removeEmphasis s) = removeEmphasis s
   \<and> (removeHeader (stripMarkup s) = stripMarkup s
        \<longrightarrow> stripMarkup (stripMarkup s) = stripMarkup s)"
proof
  show e: "removeEmphasis (removeEmphasis s) = removeEmphasis s" for s
    using removeEmphasis_oneStarPerLine by (rule removeEmphasis_unchanged)
  show "removeHeader (stripMarkup s) = stripMarkup s
        \<longrightarrow> stripMarkup (stripMarkup s) = stripMarkup s"
  proof
    assume "removeHeader (stripMarkup s) = stripMarkup s"
    then have "stripMarkup (stripMarkup s) = removeEmphasis (stripMarkup s)"
      by (simp add: stripMarkup_def)
    also have "\<dots> = stripMarkup s"
      unfolding stripMarkup_def by (rule e)
    finally show "stripMarkup (stripMarkup s) = stripMarkup s" .
  qed
qed

theorem removeEmphasis_idempotent_witness:
  "removeEmphasis (removeEmphasis ''Prompt 1: a **red** coat, *long*'')
     = removeEmphasis ''Prompt 1: a **red** coat, *long*''
   \<and> removeHeader (stripMarkup ''Prompt 1: a **red** coat, *long*'')
     = stripMarkup ''Prompt 1: a **red** coat, *long*''
   \<and> stripMarkup (stripMarkup ''Prompt 1: a **red** coat, *long*'')
     = stripMarkup ''Prompt 1: a **red** coat, *long*''"
proof -
  have h: "removeHeader (stripMarkup ''Prompt 1: a **red** coat, *long*'')
     = stripMarkup ''Prompt 1: a **red** coat, *long*''"
    by code_simp
  from removeEmphasis_idempotent [of "''Prompt 1: a **red** coat, *long*''"] h
  show ?thesis by blast
qed

text \<open>
  The claim as stated fails: the emphasis around a header hides it from the first
  stripping and uncovers it for the second.
\<close>

theorem stripMarkup_twice_counterexample:
  "stripMarkup ''**Prompt 1:** a red coat'' = ''Prompt 1: a red coat''
   \<and> stripMarkup (stripMarkup ''**Prompt 1:** a red coat'') = '' a red coat''
   \<and> stripMarkup (stripMarkup ''**Prompt 1:** a red coat'')
       \<noteq> stripMarkup ''**Prompt 1:** a red coat''"
  by code_simp

section \<open>The threshold of 100 code units\<close>

lemma server_collect_long:
  "\<forall>p \<in> set ps. 100 < length p \<Longrightarrow>
     \<forall>p \<in> set (server_collect clean n pieces ps). 100 < length p"
proof (induction pieces arbitrary: ps)
  case Nil
  then show ?case by simp
next
  case (Cons piece pieces)
  show ?case
  proof (cases "int (length ps) < n \<and> 100 < length (clean piece)")
    case True
    have "\<forall>p \<in> set (ps @ [clean piece]). 100 < length p"
      using Cons.prems True by auto
    from Cons.IH [OF this] show ?thesis using True by (simp add: Let_def)
  next
    case False
    from Cons.IH [OF Cons.prems] show ?thesis
      using False Cons.prems by (auto simp: Let_def)
  qed
qed

lemma part000_collect_long:
  "\<forall>p \<in> set (fst state). 100 < length p \<Longrightarrow>
     \<forall>p \<in> set (fst (part000_collect clean n pieces state)). 100 < length p"
proof (induction pieces arbitrary: state)
  case Nil
  then show ?case by simp
next
  case (Cons piece pieces)
  obtain ps seen where state: "state = (ps, seen)" by (cases state)
  show ?case
  proof (cases "int (length ps) < n \<and> 100 < length (clean piece)
      \<and> normalize (clean piece) \<notin> seen")
    case True
    have "\<forall>p \<in> set (fst (ps @ [clean piece], insert (normalize (clean piece)) seen)).
            100 < length p"
      using Cons.prems state True by auto
    from Cons.IH [OF this] show ?thesis using state True by (simp add: Let_def)
  next
    case False
    from Cons.IH [OF Cons.prems] show ?thesis
      using state False Cons.prems by (auto simp: Let_def)
  qed
qed

lemma server_extract_long: "\<forall>p \<in> set (server_extract t n). 100 < length p"
proof -
  have 1: "\<forall>p \<in> set (server_structured t n []). 100 < length p"
    unfolding server_structured_def by (rule server_collect_long) simp
  have 2: "\<forall>p \<in> set (server_numbered t n (server_structured t n [])). 100 < length p"
    unfolding server_numbered_def Let_def using 1 server_collect_long [OF 1] by simp
  have 3: "\<forall>p \<in> set (server_mainContent t n
                (server_numbered t n (server_structured t n []))). 100 < length p"
    unfolding server_mainContent_def Let_def using 2 by simp
  show ?thesis
    unfolding server_extract_def server_paragraphs_def
    using 3 server_collect_long [OF 3] by simp
qed

lemma part000_extract_long: "\<forall>p \<in> set (fst (part000_extract t n)). 100 < length p"
proof -
  let ?s1 = "part000_structured t n ([], {})"
  let ?s2 = "part000_sections t n ?s1"
  let ?s3 = "part000_numbered t n ?s2"
  let ?s4 = "part000_mainContent t n ?s3"
  have 1: "\<forall>p \<in> set (fst ?s1). 100 < length p"
    unfolding part000_structured_def by (rule part000_collect_long) simp
  have 2: "\<forall>p \<in> set (fst ?s2). 100 < length p"
    unfolding part000_sections_def using 1 part000_collect_long [OF 1] by simp
  have 3: "\<forall>p \<in> set (fst ?s3). 100 < length p"
    unfolding part000_numbered_def Let_def using 2 part000_collect_long [OF 2] by simp
  have 4: "\<forall>p \<in> set (fst ?s4). 100 < length p"
    unfolding part000_mainContent_def Let_def using 3 by simp
  show ?thesis
    unfolding part000_extract_def part000_paragraphs_def
    using 4 part000_collect_long [OF 4] by simp
qed

text \<open>
  The loops of server.js as list functions: a loop appends the cleaned pieces that are
  longer than 100, as many as there is room for. The stages follow, and their cascade.
\<close>

lemma server_collect_take:
  "server_collect clean n pieces ps
     = ps @ take (nat (n - int (length ps))) (filter (\<lambda>p. 100 < length p) (map clean pieces))"
proof (induction pieces arbitrary: ps)
  case Nil
  then show ?case by simp
next
  case (Cons piece pieces)
  show ?case
  proof (cases "int (length ps) < n")
    case False
    then show ?thesis by simp
  next
    case True
    then obtain k where k: "nat (n - int (length ps)) = Suc k" "nat (n - int (length ps) - 1) = k"
      by (cases "nat (n - int (length ps))") auto
    show ?thesis
    proof (cases "100 < length (clean piece)")
      case long: True
      have "nat (n - int (length (ps @ [clean piece]))) = k" using k by simp
      with Cons.IH [of "ps @ [clean piece]"] True long k show ?thesis
        by (simp add: Let_def)
    next
      case short: False
      with Cons.IH [of ps] True show ?thesis by (simp add: Let_def)
    qed
  qed
qed

lemma take_room_append:
  assumes "ps' = ps @ take (nat (n - int (length ps))) A"
  shows "ps' @ take (nat (n - int (length ps'))) B
           = ps @ take (nat (n - int (length ps))) (A @ B)"
proof -
  let ?m = "nat (n - int (length ps))"
  have "nat (n - int (length ps')) = ?m - length A"
    using assms by (auto simp: min_def)
  with assms show ?thesis by simp
qed

lemma server_structured_take:
  "server_structured t n ps
     = ps @ take (nat (n - int (length ps)))
              (filter (\<lambda>p. 100 < length p) (map cleanStructured (structuredPrompts t)))"
  unfolding server_structured_def by (rule server_collect_take)

lemma server_numbered_take:
  "server_numbered t n ps
     = ps @ take (nat (n - int (length ps)))
              (filter (\<lambda>p. 100 < length p) (map trim (tl (numberedSplit t))))"
proof (cases "1 < length (numberedSplit t)")
  case True
  then show ?thesis
    unfolding server_numbered_def Let_def using server_collect_take [of trim n "tl (numberedSplit t)" ps]
    by simp
next
  case False
  then have "tl (numberedSplit t) = []"
    by (cases "numberedSplit t") auto
  with False show ?thesis
    unfolding server_numbered_def Let_def by simp
qed

lemma server_mainContent_take:
  "server_mainContent t n ps
     = ps @ take (nat (n - int (length ps)))
              (filter (\<lambda>p. 100 < length p) [trim (stripMarkup t)])"
proof (cases "int (length ps) < n")
  case True
  then obtain k where "nat (n - int (length ps)) = Suc k"
    by (cases "nat (n - int (length ps))") auto
  with True show ?thesis
    unfolding server_mainContent_def Let_def by simp
next
  case False
  then show ?thesis unfolding server_mainContent_def by simp
qed

lemma server_paragraphs_take:
  "server_paragraphs t n ps
     = ps @ take (nat (n - int (length ps)))
              (filter (\<lambda>p. 100 < length p) (map cleanPlain (paragraphSplit t)))"
  unfolding server_paragraphs_def using server_collect_take [of cleanPlain n "paragraphSplit t" ps]
  by simp

lemma server_extract_take:
  "server_extract t n
     = take (nat n) (filter (\<lambda>p. 100 < length p)
         (map cleanStructured (structuredPrompts t)
            @ map trim (tl (numberedSplit t))
            @ [trim (stripMarkup t)]
            @ map cleanPlain (paragraphSplit t)))"
proof -
  let ?long = "\<lambda>p :: string. 100 < length p"
  let ?A = "filter ?long (map cleanStructured (structuredPrompts t))"
  let ?B = "filter ?long (map trim (tl (numberedSplit t)))"
  let ?C = "filter ?long [trim (stripMarkup t)]"
  let ?D = "filter ?long (map cleanPlain (paragraphSplit t))"
  let ?s1 = "server_structured t n []"
  let ?s2 = "server_numbered t n ?s1"
  let ?s3 = "server_mainContent t n ?s2"
  have 1: "?s1 = [] @ take (nat (n - int (length ([] :: string list)))) ?A"
    by (rule server_structured_take)
  have "?s2 = ?s1 @ take (nat (n - int (length ?s1))) ?B"
    by (rule server_numbered_take)
  also have "\<dots> = [] @ take (nat (n - int (length ([] :: string list)))) (?A @ ?B)"
    using 1 by (rule take_room_append)
  finally have 2: "?s2 = [] @ take (nat (n - int (length ([] :: string list)))) (?A @ ?B)" .
  have "?s3 = ?s2 @ take (nat (n - int (length ?s2))) ?C"
    by (rule server_mainContent_take)
  also have "\<dots> = [] @ take (nat (n - int (length ([] :: string list)))) ((?A @ ?B) @ ?C)"
    using 2 by (rule take_room_append)
  finally have 3: "?s3 = [] @ take (nat (n - int (length ([] :: string list)))) ((?A @ ?B) @ ?C)" .
  have "server_extract t n = ?s3 @ take (nat (n - int (length ?s3))) ?D"
    unfolding server_extract_def by (rule server_paragraphs_take)
  also have "\<dots> = [] @ take (nat (n - int (length ([] :: string list)))) (((?A @ ?B) @ ?C) @ ?D)"
    using 3 by (rule take_room_append)
  finally have e: "server_extract t n
      = [] @ take (nat (n - int (length ([] :: string list)))) (((?A @ ?B) @ ?C) @ ?D)" .
  have r: "[] @ take (nat (n - int (length ([] :: string list)))) X = take (nat n) X"
    for X :: "string list"
    by simp
  have f: "filter ?long (map cleanStructured (structuredPrompts t)
            @ map trim (tl (numberedSplit t))
            @ [trim (stripMarkup t)]
            @ map cleanPlain (paragraphSplit t)) = ((?A @ ?B) @ ?C) @ ?D"
    by (simp only: filter_append append_assoc)
  from e show ?thesis unfolding r f .
qed


text \<open>
  The same for part_000, where a cleaned piece must also be new by its normalized form.
\<close>

lemma firstByNormalized_append:
  "firstByNormalized seen (A @ B)
     = firstByNormalized seen A
         @ firstByNormalized (seen \<union> set (map normalize (firstByNormalized seen A))) B"
  by (induction A arbitrary: seen) simp_all

lemma offer_append: "offer n B (offer n A state) = offer n (A @ B) state"
proof -
  obtain ps seen where state: "state = (ps, seen)" by (cases state)
  let ?long = "\<lambda>p :: string. 100 < length p"
  let ?m = "nat (n - int (length ps))"
  let ?FA = "firstByNormalized seen (filter ?long A)"
  let ?X = "take ?m ?FA"
  let ?seen' = "seen \<union> set (map normalize ?X)"
  have A: "offer n A state = (ps @ ?X, ?seen')"
    by (simp add: offer_def state Let_def)
  have m': "nat (n - int (length (ps @ ?X))) = ?m - length ?FA"
    by (auto simp: min_def)
  show ?thesis
  proof (cases "length ?FA \<le> ?m")
    case True
    then have X: "?X = ?FA" by simp
    have "nat (n - (int (length ps) + int (length ?FA))) = ?m - length ?FA" by simp
    then show ?thesis
      unfolding A unfolding offer_def Let_def state fst_conv snd_conv filter_append
        firstByNormalized_append take_append X
      by (simp add: Un_assoc)
  next
    case False
    then have 0: "?m - length ?FA = 0" by simp
    show ?thesis
      unfolding A unfolding offer_def Let_def state fst_conv snd_conv m' filter_append
        firstByNormalized_append take_append 0
      by simp
  qed
qed

lemma part000_collect_offer: "part000_collect clean n pieces state = offer n (map clean pieces) state"
proof (induction pieces arbitrary: state)
  case Nil
  then show ?case by (simp add: offer_def)
next
  case (Cons piece pieces)
  obtain ps seen where state: "state = (ps, seen)" by (cases state)
  show ?case
  proof (cases "int (length ps) < n")
    case False
    then show ?thesis by (simp add: state offer_def)
  next
    case True
    then obtain k where k: "nat (n - int (length ps)) = Suc k" "nat (n - int (length ps) - 1) = k"
      by (cases "nat (n - int (length ps))") auto
    show ?thesis
    proof (cases "100 < length (clean piece) \<and> normalize (clean piece) \<notin> seen")
      case keep: True
      have "nat (n - int (length (ps @ [clean piece]))) = k" using k by simp
      then show ?thesis
        using Cons.IH [of "(ps @ [clean piece], insert (normalize (clean piece)) seen)"]
          True keep k
        by (simp add: state offer_def Let_def)
    next
      case skip: False
      with Cons.IH [of "(ps, seen)"] True show ?thesis
        by (auto simp: state offer_def Let_def)
    qed
  qed
qed

lemma part000_structured_offer:
  "part000_structured t n state = offer n (map cleanStructured (structuredPrompts t)) state"
  unfolding part000_structured_def by (rule part000_collect_offer)

lemma offer_full: "\<not> int (length (fst state)) < n \<Longrightarrow> offer n cands state = state"
  by (simp add: offer_def)

lemma part000_sections_offer:
  "part000_sections t n state = offer n (map cleanPlain (tl (promptSections t))) state"
  unfolding part000_sections_def by (simp add: part000_collect_offer offer_full)

lemma part000_numbered_offer:
  "part000_numbered t n state = offer n (map cleanPlain (tl (numberedSplit t))) state"
proof (cases "1 < length (numberedSplit t)")
  case True
  then show ?thesis
    unfolding part000_numbered_def Let_def by (simp add: part000_collect_offer offer_full)
next
  case False
  then have "tl (numberedSplit t) = []"
    by (cases "numberedSplit t") auto
  with False show ?thesis
    unfolding part000_numbered_def Let_def by (simp add: offer_def)
qed

lemma part000_mainContent_offer:
  "part000_mainContent t n state = offer n [trim (stripMarkup t)] state"
proof (cases "int (length (fst state)) < n")
  case True
  then obtain k where "nat (n - int (length (fst state))) = Suc k"
    by (cases "nat (n - int (length (fst state)))") auto
  with True show ?thesis
    unfolding part000_mainContent_def Let_def offer_def by (cases state) auto
next
  case False
  then show ?thesis unfolding part000_mainContent_def by (simp add: offer_full)
qed

lemma part000_paragraphs_offer:
  "part000_paragraphs t n state = offer n (map cleanPlain (paragraphSplit t)) state"
  unfolding part000_paragraphs_def by (simp add: part000_collect_offer offer_full)

lemma part000_extract_offer: "part000_extract t n = offer n (part000_candidates t) ([], {})"
  unfolding part000_extract_def part000_candidates_def part000_structured_offer
    part000_sections_offer part000_numbered_offer part000_mainContent_offer
    part000_paragraphs_offer offer_append
  by (simp only: append_assoc)

lemma part000_extract_take:
  "fst (part000_extract t n)
     = take (nat n) (firstByNormalized {} (filter (\<lambda>p. 100 < length p) (part000_candidates t)))"
  unfolding part000_extract_offer by (simp add: offer_def Let_def)


text \<open>
  On a piece without a star the cleaning of a plain piece is the trimming alone.
\<close>

lemma oneStarPerLine_no_star: "star \<notin> set s \<Longrightarrow> oneStarPerLine seen s"
  by (induction s arbitrary: seen) auto

lemma trim_subset: "set (trim s) \<subseteq> set s"
proof -
  have "set (trim s) \<subseteq> set (dropWhile isWhiteSpace s)"
    unfolding trim_def using set_dropWhileD [of _ isWhiteSpace "rev (dropWhile isWhiteSpace s)"]
    by auto
  also have "\<dots> \<subseteq> set s" using set_dropWhileD [of _ isWhiteSpace s] by auto
  finally show ?thesis .
qed

lemma cleanPlain_no_star: "star \<notin> set p \<Longrightarrow> cleanPlain p = trim p"
proof -
  assume "star \<notin> set p"
  with trim_subset [of p] have "star \<notin> set (trim p)" by auto
  then have "oneStarPerLine False (trim p)" by (rule oneStarPerLine_no_star)
  then show ?thesis unfolding cleanPlain_def by (rule removeEmphasis_unchanged)
qed

lemma plainNumberedItems_trim:
  "plainNumberedItems t \<Longrightarrow>
     map trim (tl (numberedSplit t)) = map cleanPlain (tl (numberedSplit t))"
  unfolding plainNumberedItems_def by (simp add: cleanPlain_no_star)

lemma server_extract_candidates:
  assumes "plainNumberedItems t"
  shows "server_extract t n
           = take (nat n) (filter (\<lambda>p. 100 < length p) (server_candidates t))"
  unfolding server_extract_take server_candidates_def plainNumberedItems_trim [OF assms] ..

lemma firstByNormalized_length: "length (firstByNormalized seen xs) \<le> length xs"
  by (induction xs arbitrary: seen) (auto simp: le_SucI)

lemma firstByNormalized_normalized:
  "p \<in> set xs \<Longrightarrow>
     normalize p \<in> seen \<union> set (map normalize (firstByNormalized seen xs))"
  by (induction xs arbitrary: seen) auto

text \<open>
  Claim C7, as amended. The stages collect the candidates that are longer than 100 code
  units, measured after the trimming and the markup replacements: what they collect is
  the list of the candidates in the order of the cascade, without those of 100 code units
  or fewer, in part_000 also without those whose normalized form an earlier kept one
  has, cut to the count. So no string of exactly 100 code units is collected, and a
  candidate of exactly 101 code units is collected (in part_000: it, or a collected
  prompt with its normalized form) when the count is at least the number of
  candidates. For server.js the list and the candidate of 101 code units are stated for
  the texts whose numbered items (the pieces of the numbered split after the first)
  have no star; what its numbered stage does with emphasis is left aside.
\<close>

theorem stages_keep_longer_than_100:
  "(plainNumberedItems t \<longrightarrow>
      server_extract t n = take (nat n) (filter (\<lambda>p. 100 < length p) (server_candidates t)))
   \<and> fst (part000_extract t n)
       = take (nat n)
           (firstByNormalized {} (filter (\<lambda>p. 100 < length p) (part000_candidates t)))
   \<and> (length a = 100 \<longrightarrow>
        a \<notin> set (server_extract t n) \<and> a \<notin> set (fst (part000_extract t n)))
   \<and> (length b = 101 \<and> plainNumberedItems t \<and> b \<in> set (server_candidates t)
        \<and> int (length (server_candidates t)) \<le> n \<longrightarrow>
        b \<in> set (server_extract t n))
   \<and> (length b = 101 \<and> b \<in> set (part000_candidates t)
        \<and> int (length (part000_candidates t)) \<le> n \<longrightarrow>
        normalize b \<in> set (map normalize (fst (part000_extract t n))))"
proof (intro conjI impI)
  let ?long = "\<lambda>p :: string. 100 < length p"
  show "server_extract t n = take (nat n) (filter ?long (server_candidates t))"
    if "plainNumberedItems t"
    using that by (rule server_extract_candidates)
  show "fst (part000_extract t n)
          = take (nat n) (firstByNormalized {} (filter ?long (part000_candidates t)))"
    by (rule part000_extract_take)
  show "a \<notin> set (server_extract t n)" if "length a = 100"
    using that server_extract_long [of t n] by auto
  show "a \<notin> set (fst (part000_extract t n))" if "length a = 100"
    using that part000_extract_long [of t n] by auto
  show "b \<in> set (server_extract t n)"
    if h: "length b = 101 \<and> plainNumberedItems t \<and> b \<in> set (server_candidates t)
           \<and> int (length (server_candidates t)) \<le> n"
  proof -
    have "length (filter ?long (server_candidates t)) \<le> length (server_candidates t)"
      by (rule length_filter_le)
    with h have "length (filter ?long (server_candidates t)) \<le> nat n" by linarith
    then have "server_extract t n = filter ?long (server_candidates t)"
      using h server_extract_candidates [of t n] by simp
    with h show ?thesis by simp
  qed
  show "normalize b \<in> set (map normalize (fst (part000_extract t n)))"
    if h: "length b = 101 \<and> b \<in> set (part000_candidates t)
           \<and> int (length (part000_candidates t)) \<le> n"
  proof -
    let ?F = "filter ?long (part000_candidates t)"
    have "length (firstByNormalized {} ?F) \<le> length ?F"
      by (rule firstByNormalized_length)
    also have "\<dots> \<le> length (part000_candidates t)" by (rule length_filter_le)
    finally have "length (firstByNormalized {} ?F) \<le> nat n" using h by linarith
    then have e: "fst (part000_extract t n) = firstByNormalized {} ?F"
      unfolding part000_extract_take by simp
    from h have "b \<in> set ?F" by simp
    from firstByNormalized_normalized [OF this, of "{}"] show ?thesis
      unfolding e by simp
  qed
qed

text \<open>
  The theorem at a text with one numbered item of 101 code units and a count of 3;
  a string of 100 letters is the \<open>a\<close> of the theorem.
\<close>

theorem stages_keep_longer_than_100_witness:
  "plainNumberedItems (''x 1. '' @ replicate 98 (CHR ''a''))
   \<and> server_candidates (''x 1. '' @ replicate 98 (CHR ''a''))
       = [''1. '' @ replicate 98 (CHR ''a''), ''x 1. '' @ replicate 98 (CHR ''a''),
          ''x 1. '' @ replicate 98 (CHR ''a'')]
   \<and> part000_candidates (''x 1. '' @ replicate 98 (CHR ''a''))
       = [''1. '' @ replicate 98 (CHR ''a''), ''x 1. '' @ replicate 98 (CHR ''a''),
          ''x 1. '' @ replicate 98 (CHR ''a'')]
   \<and> server_extract (''x 1. '' @ replicate 98 (CHR ''a'')) 3
       = [''1. '' @ replicate 98 (CHR ''a''), ''x 1. '' @ replicate 98 (CHR ''a''),
          ''x 1. '' @ replicate 98 (CHR ''a'')]
   \<and> fst (part000_extract (''x 1. '' @ replicate 98 (CHR ''a'')) 3)
       = [''1. '' @ replicate 98 (CHR ''a''), ''x 1. '' @ replicate 98 (CHR ''a'')]
   \<and> length (replicate 100 (CHR ''a'')) = 100
   \<and> replicate 100 (CHR ''a'') \<notin> set (server_extract (''x 1. '' @ replicate 98 (CHR ''a'')) 3)
   \<and> replicate 100 (CHR ''a'')
       \<notin> set (fst (part000_extract (''x 1. '' @ replicate 98 (CHR ''a'')) 3))
   \<and> length (''1. '' @ replicate 98 (CHR ''a'')) = 101
   \<and> ''1. '' @ replicate 98 (CHR ''a'')
       \<in> set (server_extract (''x 1. '' @ replicate 98 (CHR ''a'')) 3)
   \<and> normalize (''1. '' @ replicate 98 (CHR ''a''))
       \<in> set (map normalize (fst (part000_extract (''x 1. '' @ replicate 98 (CHR ''a'')) 3)))"
proof -
  let ?t = "''x 1. '' @ replicate 98 (CHR ''a'')"
  let ?b = "''1. '' @ replicate 98 (CHR ''a'')"
  have plain: "plainNumberedItems ?t"
    unfolding plainNumberedItems_def by code_simp
  have sc: "server_candidates ?t = [?b, ?t, ?t]" by code_simp
  have pc: "part000_candidates ?t = [?b, ?t, ?t]" by code_simp
  have la: "length (replicate 100 (CHR ''a'')) = 100" by simp
  have lb: "length ?b = 101" by simp
  have long: "filter (\<lambda>p. 100 < length p) [?b, ?t, ?t] = [?b, ?t, ?t]" by simp
  have first: "firstByNormalized {} [?b, ?t, ?t] = [?b, ?t]" by code_simp
  note T = stages_keep_longer_than_100 [of ?t 3 "replicate 100 (CHR ''a'')" ?b]
  from T plain have se: "server_extract ?t 3 = [?b, ?t, ?t]"
    unfolding sc long by simp
  from T have pe: "fst (part000_extract ?t 3) = [?b, ?t]"
    unfolding pc long first by simp
  from T la have a: "replicate 100 (CHR ''a'') \<notin> set (server_extract ?t 3)
      \<and> replicate 100 (CHR ''a'') \<notin> set (fst (part000_extract ?t 3))"
    by blast
  have "?b \<in> set (server_candidates ?t)" "int (length (server_candidates ?t)) \<le> 3"
    "?b \<in> set (part000_candidates ?t)" "int (length (part000_candidates ?t)) \<le> 3"
    unfolding sc pc by simp_all
  with T lb plain have b: "?b \<in> set (server_extract ?t 3)
      \<and> normalize ?b \<in> set (map normalize (fst (part000_extract ?t 3)))"
    by blast
  from plain sc pc se pe la a lb b show ?thesis by blast
qed

text \<open>
  As stated the claim fails twice. The numbered stage of server.js (lines 412-418) tests
  the length of the trimmed item, with the stars still in it: it keeps
  \<^verbatim>\<open>1. **a...a**\<close> with 97 letters, which has exactly 100 code units once the emphasis is
  collapsed. And a candidate of 101 code units is not kept when its normalized form was
  kept before: of the paragraphs \<open>a...a\<close> and \<open>A...A\<close>, 101 letters each,
  part_000 keeps the first only and fills the third place with a variation.
\<close>

theorem threshold_counterexample:
  "server_parseMultiplePrompts (''x 1. **'' @ replicate 97 (CHR ''a'') @ ''**'') 1
     = Inr [''1. **'' @ replicate 97 (CHR ''a'') @ ''**'']
   \<and> numberedSplit (''x 1. **'' @ replicate 97 (CHR ''a'') @ ''**'')
       = [''x '', ''1. **'' @ replicate 97 (CHR ''a'') @ ''**'']
   \<and> cleanPlain (''1. **'' @ replicate 97 (CHR ''a'') @ ''**'')
       = ''1. '' @ replicate 97 (CHR ''a'')
   \<and> length (''1. '' @ replicate 97 (CHR ''a'')) = 100
   \<and> part000_parseMultiplePrompts
        (replicate 101 (CHR ''a'') @ [CHR 0x0A, CHR 0x0A] @ replicate 101 (CHR ''A'')) 3
     = Inr [replicate 101 (CHR ''a'') @ [CHR 0x0A, CHR 0x0A] @ replicate 101 (CHR ''A''),
            replicate 101 (CHR ''a''), part000_creativeVariations 3 ! 3]
   \<and> paragraphSplit
        (replicate 101 (CHR ''a'') @ [CHR 0x0A, CHR 0x0A] @ replicate 101 (CHR ''A''))
     = [replicate 101 (CHR ''a''), replicate 101 (CHR ''A'')]
   \<and> cleanPlain (replicate 101 (CHR ''A'')) = replicate 101 (CHR ''A'')
   \<and> length (replicate 101 (CHR ''A'')) = 101"
  by code_simp

section \<open>The empty text\<close>

text \<open>
  Claim C5. For the empty text and a count of 3 both parsers return three prompts, the
  variations with the indices 1, 2 and 3, which are pairwise distinct, also when
  normalized.
\<close>

theorem empty_text_three_variations:
  "server_parseMultiplePrompts [] 3
     = Inr [server_creativeVariations 1 ! 1, server_creativeVariations 2 ! 2,
            server_creativeVariations 3 ! 3]
   \<and> part000_parseMultiplePrompts [] 3
     = Inr [part000_creativeVariations 1 ! 1, part000_creativeVariations 2 ! 2,
            part000_creativeVariations 3 ! 3]
   \<and> length [server_creativeVariations 1 ! 1, server_creativeVariations 2 ! 2,
              server_creativeVariations 3 ! 3] = 3
   \<and> distinct [server_creativeVariations 1 ! 1, server_creativeVariations 2 ! 2,
                server_creativeVariations 3 ! 3]
   \<and> distinct [part000_creativeVariations 1 ! 1, part000_creativeVariations 2 ! 2,
                part000_creativeVariations 3 ! 3]
   \<and> distinct (map normalize
         [part000_creativeVariations 1 ! 1, part000_creativeVariations 2 ! 2,
          part000_creativeVariations 3 ! 3])"
  by code_simp

section \<open>Where the two parsers agree\<close>

lemma trim_length: "length (trim s) \<le> length s"
proof -
  have "length (trim s) \<le> length (dropWhile isWhiteSpace s)"
    unfolding trim_def using length_dropWhile_le [of isWhiteSpace "rev (dropWhile isWhiteSpace s)"]
    by simp
  also have "\<dots> \<le> length s" by (rule length_dropWhile_le)
  finally show ?thesis .
qed

lemma boldClose_length:
  "boldClose s = Some (inner, r) \<Longrightarrow> length inner + length r \<le> length s"
proof (induction s arbitrary: inner rule: boldClose.induct)
  case (1 c d r')
  show ?case
  proof (cases "c = star \<and> d = star")
    case True
    with "1.prems" show ?thesis by simp
  next
    case False
    with "1.prems" obtain inner' where lt: "\<not> isLineTerminator c"
      and b: "boldClose (d # r') = Some (inner', r)" and i: "inner = c # inner'"
      by (auto split: if_splits option.splits)
    from "1.IH" [OF False lt b] i show ?thesis by simp
  qed
qed simp_all

lemma removeBold_length: "length (removeBold s) \<le> length s"
proof (induction s rule: removeBold.induct)
  case (1 c d r)
  show ?case
  proof (cases "c = star \<and> d = star")
    case True
    show ?thesis
    proof (cases "boldClose r")
      case None
      with "1.IH"(1) [OF True None] True show ?thesis by simp
    next
      case (Some a)
      obtain inner r' where a: "a = (inner, r')" by (cases a)
      from "1.IH"(2) [OF True Some a [symmetric]] boldClose_length [of r inner r'] Some a True
      show ?thesis by simp
    qed
  next
    case False
    with "1.IH"(3) [OF False] show ?thesis by auto
  qed
qed simp_all

lemma italicClose_length:
  "italicClose s = Some (inner, r) \<Longrightarrow> length inner + length r \<le> length s"
proof (induction s arbitrary: inner)
  case Nil
  then show ?case by simp
next
  case (Cons c cs)
  show ?case
  proof (cases "c = star")
    case True
    with Cons.prems show ?thesis by simp
  next
    case False
    with Cons.prems obtain inner' where i: "italicClose cs = Some (inner', r)"
      and "inner = c # inner'"
      by (auto split: if_splits option.splits)
    with Cons.IH [OF i] show ?thesis by simp
  qed
qed

lemma removeItalic_length: "length (removeItalic s) \<le> length s"
proof (induction s rule: removeItalic.induct)
  case 1
  show ?case by simp
next
  case (2 c cs)
  show ?case
  proof (cases "c = star")
    case True
    show ?thesis
    proof (cases "italicClose cs")
      case None
      with "2.IH"(1) [OF True None] True show ?thesis by simp
    next
      case (Some a)
      obtain inner r where a: "a = (inner, r)" by (cases a)
      from "2.IH"(2) [OF True Some a [symmetric]] italicClose_length [of cs inner r] Some a True
      show ?thesis by simp
    qed
  next
    case False
    with "2.IH"(3) [OF False] show ?thesis by simp
  qed
qed

lemma removeEmphasis_length: "length (removeEmphasis s) \<le> length s"
  unfolding removeEmphasis_def
  using removeItalic_length [of "removeBold s"] removeBold_length [of s] by simp

lemma removeHeader_length: "length (removeHeader s) \<le> length s"
proof (cases "orElse (hashPromptHeader s) (orElse (promptHeader s)
             (orElse (imageHeader s) (editingHeader s)))")
  case None
  then show ?thesis by (simp add: removeHeader_def)
next
  case (Some r)
  then have "length r < length s"
    by (auto dest!: orElse_Some dest: hashPromptHeader_shorter promptHeader_shorter
          imageHeader_shorter editingHeader_shorter)
  with Some show ?thesis by (simp add: removeHeader_def)
qed

lemma cleanStructured_length: "length (cleanStructured m) \<le> length m"
  unfolding cleanStructured_def
  using removeEmphasis_length [of "trim (removeHeader (trim m))"]
    trim_length [of "removeHeader (trim m)"] removeHeader_length [of "trim m"] trim_length [of m]
  by simp

lemma cleanPlain_length: "length (cleanPlain m) \<le> length m"
  unfolding cleanPlain_def
  using removeEmphasis_length [of "trim m"] trim_length [of m] by simp

lemma mainContent_length: "length (trim (stripMarkup t)) \<le> length t"
  unfolding stripMarkup_def
  using trim_length [of "removeEmphasis (removeHeader t)"]
    removeEmphasis_length [of "removeHeader t"] removeHeader_length [of t] by simp

lemma structuredPrompts_length: "\<forall>m \<in> set (structuredPrompts s). length m \<le> length s"
proof (induction s rule: structuredPrompts.induct)
  case 1
  show ?case by simp
next
  case (2 c cs)
  show ?case
  proof (cases "structuredAt (c # cs)")
    case None
    with "2.IH"(1) [OF None] show ?thesis by auto
  next
    case (Some r)
    from structuredAt_shorter [OF Some] "2.IH"(2) [OF Some] Some
    show ?thesis by (auto simp: matched_def)
  qed
qed

lemma intoFirst_length:
  "\<forall>p \<in> set pieces. length p \<le> n \<Longrightarrow> \<forall>p \<in> set (intoFirst c pieces). length p \<le> Suc n"
  by (cases pieces) (auto simp: intoFirst_def)

lemma promptSections_length: "\<forall>p \<in> set (promptSections s). length p \<le> length s"
proof (induction s rule: promptSections.induct)
  case 1
  show ?case by simp
next
  case (2 c cs)
  show ?case
  proof (cases "hashPromptHeader (c # cs)")
    case None
    with intoFirst_length [OF "2.IH"(1) [OF None]] show ?thesis by simp
  next
    case (Some r)
    from hashPromptHeader_shorter [OF Some] "2.IH"(2) [OF Some] Some
    show ?thesis by auto
  qed
qed

lemma numberedSplit_length: "\<forall>p \<in> set (numberedSplit s). length p \<le> length s"
proof (induction s)
  case Nil
  show ?case by simp
next
  case (Cons c cs)
  show ?case
  proof (cases "numberedAhead cs")
    case True
    with Cons.IH show ?thesis by auto
  next
    case False
    with intoFirst_length [OF Cons.IH] show ?thesis by simp
  qed
qed

lemma paragraphSplit_length: "\<forall>p \<in> set (paragraphSplit s). length p \<le> length s"
proof (induction s rule: paragraphSplit.induct)
  case 1
  show ?case by simp
next
  case (2 c cs)
  show ?case
  proof (cases "if c = CHR 0x0A then blankLine cs else None")
    case None
    with intoFirst_length [OF "2.IH"(1) [OF None]] show ?thesis by simp
  next
    case (Some r)
    then have "blankLine cs = Some r" by (simp split: if_splits)
    from blankLine_shorter [OF this] "2.IH"(2) [OF Some] Some
    show ?thesis by auto
  qed
qed

lemma server_collect_short:
  "\<forall>p \<in> set pieces. length (clean p) \<le> 100 \<Longrightarrow> server_collect clean n pieces ps = ps"
  by (induction pieces) (auto simp: Let_def)

lemma part000_collect_short:
  "\<forall>p \<in> set pieces. length (clean p) \<le> 100 \<Longrightarrow>
     part000_collect clean n pieces state = state"
proof (induction pieces)
  case Nil
  show ?case by simp
next
  case (Cons piece pieces)
  obtain ps seen where "state = (ps, seen)" by (cases state)
  with Cons show ?case by (auto simp: Let_def)
qed

lemma set_tl_subset: "set (tl xs) \<subseteq> set xs"
  by (cases xs) auto

lemma short_text_pieces:
  assumes "length t \<le> 100" and "\<forall>p \<in> set pieces. length p \<le> length t"
    and "\<And>p. length (clean p) \<le> length p"
  shows "\<forall>p \<in> set pieces. length (clean p) \<le> 100"
  using assms by (meson le_trans)

lemma server_extract_short: "length t \<le> 100 \<Longrightarrow> server_extract t n = []"
proof -
  assume t: "length t \<le> 100"
  have 1: "server_structured t n [] = []"
    unfolding server_structured_def
    by (rule server_collect_short)
       (rule short_text_pieces [OF t structuredPrompts_length cleanStructured_length])
  have "\<forall>p \<in> set (tl (numberedSplit t)). length p \<le> length t"
    using numberedSplit_length [of t] set_tl_subset [of "numberedSplit t"] by blast
  then have "server_collect trim n (tl (numberedSplit t)) [] = []"
    by (intro server_collect_short short_text_pieces [OF t _ trim_length])
  then have 2: "server_numbered t n [] = []"
    by (simp add: server_numbered_def Let_def)
  have 3: "server_mainContent t n [] = []"
    using mainContent_length [of t] t by (simp add: server_mainContent_def Let_def)
  have "server_collect cleanPlain n (paragraphSplit t) [] = []"
    by (rule server_collect_short)
       (rule short_text_pieces [OF t paragraphSplit_length cleanPlain_length])
  then have 4: "server_paragraphs t n [] = []"
    by (simp add: server_paragraphs_def)
  show ?thesis by (simp add: server_extract_def 1 2 3 4)
qed

lemma part000_extract_short: "length t \<le> 100 \<Longrightarrow> part000_extract t n = ([], {})"
proof -
  assume t: "length t \<le> 100"
  let ?e = "([], {}) :: string list \<times> string set"
  have 1: "part000_structured t n ?e = ?e"
    unfolding part000_structured_def
    by (rule part000_collect_short)
       (rule short_text_pieces [OF t structuredPrompts_length cleanStructured_length])
  have "\<forall>p \<in> set (tl (promptSections t)). length p \<le> length t"
    using promptSections_length [of t] set_tl_subset [of "promptSections t"] by blast
  then have "part000_collect cleanPlain n (tl (promptSections t)) ?e = ?e"
    by (intro part000_collect_short short_text_pieces [OF t _ cleanPlain_length])
  then have 2: "part000_sections t n ?e = ?e"
    by (simp add: part000_sections_def)
  have "\<forall>p \<in> set (tl (numberedSplit t)). length p \<le> length t"
    using numberedSplit_length [of t] set_tl_subset [of "numberedSplit t"] by blast
  then have "part000_collect cleanPlain n (tl (numberedSplit t)) ?e = ?e"
    by (intro part000_collect_short short_text_pieces [OF t _ cleanPlain_length])
  then have 3: "part000_numbered t n ?e = ?e"
    by (simp add: part000_numbered_def Let_def)
  have 4: "part000_mainContent t n ?e = ?e"
    using mainContent_length [of t] t by (simp add: part000_mainContent_def Let_def)
  have "part000_collect cleanPlain n (paragraphSplit t) ?e = ?e"
    by (rule part000_collect_short)
       (rule short_text_pieces [OF t paragraphSplit_length cleanPlain_length])
  then have 5: "part000_paragraphs t n ?e = ?e"
    by (simp add: part000_paragraphs_def)
  show ?thesis by (simp add: part000_extract_def 1 2 3 4 5)
qed

lemma trans_sym: "a = c \<Longrightarrow> b = c \<Longrightarrow> a = b"
  by simp

lemma server_pad_any_text: "server_pad t n ps = server_pad t' n ps"
proof (induction t n ps rule: server_pad.induct)
  case (1 t n ps)
  show ?case
  proof (cases "int (length ps) < n")
    case False
    from server_pad_done [OF False, of t] server_pad_done [OF False, of t']
    show ?thesis by (rule trans_sym)
  next
    case True
    obtain v where v: "server_createPromptVariation (basePrompt ps t) (int (length ps) + 1) = Some v"
      using server_variation_defined by blast
    then have v': "server_createPromptVariation (basePrompt ps t') (int (length ps) + 1) = Some v"
      by (simp add: server_createPromptVariation_def)
    have "server_pad t n ps = server_pad t n (ps @ [v])"
      using True v by (rule server_pad_step)
    also have "\<dots> = server_pad t' n (ps @ [v])"
      by (rule "1.IH" [OF True v])
    also have "\<dots> = server_pad t' n ps"
      using True v' by (rule server_pad_step [symmetric])
    finally show ?thesis .
  qed
qed

lemma part000_pad_any_text: "part000_pad t n state = part000_pad t' n state"
proof (induction t n state rule: part000_pad.induct)
  case (1 t n ps seen)
  show ?case
  proof (cases "int (length ps) < n")
    case False
    from part000_pad_done [OF False, of t seen] part000_pad_done [OF False, of t' seen]
    show ?thesis by (rule trans_sym)
  next
    case True
    obtain v where v: "part000_createPromptVariation (basePrompt ps t) (int (length ps) + 1) = Some v"
      using part000_variation_defined by blast
    then have v': "part000_createPromptVariation (basePrompt ps t') (int (length ps) + 1) = Some v"
      by (simp add: part000_createPromptVariation_def)
    note s = part000_pad_step [OF True v, of seen] and s' = part000_pad_step [OF True v', of seen]
    show ?thesis
    proof (cases "normalize v \<in> seen")
      case dup: True
      from s s' dup show ?thesis by (simp only: if_True)
    next
      case fresh: False
      from "1.IH" [OF True v refl fresh] s s' fresh show ?thesis by (simp only: if_False)
    qed
  qed
qed

lemma server_parse_short:
  "length t \<le> 100 \<Longrightarrow> server_parseMultiplePrompts t n = server_parseMultiplePrompts [] n"
  using server_pad_any_text [of t n "[]" "[]"]
  by (simp add: server_parseMultiplePrompts_def server_extract_short)

lemma part000_parse_short:
  "length t \<le> 100 \<Longrightarrow> part000_parseMultiplePrompts t n = part000_parseMultiplePrompts [] n"
  using part000_pad_any_text [of t n "([], {})" "[]"]
  by (simp add: part000_parseMultiplePrompts_def part000_extract_short)

lemma parsers_agree_empty:
  "n \<le> 3 \<Longrightarrow> server_parseMultiplePrompts [] n = part000_parseMultiplePrompts [] n"
proof -
  assume "n \<le> 3"
  then consider "n \<le> 0" | "n = 1" | "n = 2" | "n = 3" by linarith
  then show ?thesis
  proof cases
    case 1
    then have "server_pad [] n [] = Inr []" "part000_pad [] n ([], {}) = Inr ([], {})"
      by (simp_all add: server_pad_done part000_pad_done)
    then show ?thesis
      by (simp add: server_parseMultiplePrompts_def part000_parseMultiplePrompts_def
            server_extract_short part000_extract_short slice0_def)
  next
    case 2
    have "server_parseMultiplePrompts [] 1 = part000_parseMultiplePrompts [] 1" by code_simp
    with 2 show ?thesis by simp
  next
    case 3
    have "server_parseMultiplePrompts [] 2 = part000_parseMultiplePrompts [] 2" by code_simp
    with 3 show ?thesis by simp
  next
    case 4
    have "server_parseMultiplePrompts [] 3 = part000_parseMultiplePrompts [] 3" by code_simp
    with 4 show ?thesis by simp
  qed
qed

text \<open>
  Claim C10, as amended. The two parsers return the same list for every text of at most
  100 code units and every count up to 3: no stage collects anything from such a text,
  and the variations with the indices 1, 2 and 3 are the same in both files and
  pairwise distinct. They are not equal as functions.
\<close>

theorem parsers_agree_on_short_text:
  "length t \<le> 100 \<Longrightarrow> n \<le> 3 \<Longrightarrow>
     server_parseMultiplePrompts t n = part000_parseMultiplePrompts t n"
proof -
  assume t: "length t \<le> 100" and n: "n \<le> 3"
  have "server_parseMultiplePrompts t n = server_parseMultiplePrompts [] n"
    using t by (rule server_parse_short)
  also have "\<dots> = part000_parseMultiplePrompts [] n"
    using n by (rule parsers_agree_empty)
  also have "\<dots> = part000_parseMultiplePrompts t n"
    using t by (rule part000_parse_short [symmetric])
  finally show ?thesis .
qed

theorem parsers_agree_on_short_text_witness:
  "length ''a red coat'' \<le> 100 \<and> (2::int) \<le> 3
   \<and> server_parseMultiplePrompts ''a red coat'' 2 = part000_parseMultiplePrompts ''a red coat'' 2"
proof -
  have h1: "length ''a red coat'' \<le> 100" by simp
  have h2: "(2::int) \<le> 3" by simp
  from parsers_agree_on_short_text [OF h1 h2] h1 h2 show ?thesis by blast
qed

text \<open>
  As stated the claim fails at the empty text and a count of 4: the fourth variation is
  the first template of the four of server.js (4 modulo 4), and the fifth template of
  the ten of part_000.
\<close>

theorem parsers_differ_counterexample:
  "server_parseMultiplePrompts [] 4 \<noteq> part000_parseMultiplePrompts [] 4"
  by code_simp

section \<open>Ten numbered segments\<close>

lemma no_header_here:
  assumes "\<not> headerStart c"
  shows "hashPromptHeader (c # cs) = None" and "promptHeader (c # cs) = None"
    and "imageHeader (c # cs) = None" and "editingHeader (c # cs) = None"
proof -
  have c: "canonicalize c \<noteq> CHR ''#''" "canonicalize c \<noteq> CHR ''P''"
    "canonicalize c \<noteq> CHR ''I''"
    using assms by (simp_all add: headerStart_def)
  have k: "canonicalize (CHR ''#'') = CHR ''#''" "canonicalize (CHR ''P'') = CHR ''P''"
    "canonicalize (CHR ''I'') = CHR ''I''"
    by (simp_all add: canonicalize_def)
  show "hashPromptHeader (c # cs) = None"
    using c k by (simp add: hashPromptHeader_def)
  show "promptHeader (c # cs) = None"
    using c k by (simp add: promptHeader_def)
  show "imageHeader (c # cs) = None"
    using c k by (simp add: imageHeader_def)
  show "editingHeader (c # cs) = None"
    using c k by (simp add: editingHeader_def)
qed

lemma structuredPrompts_none:
  "\<forall>c \<in> set s. \<not> headerStart c \<Longrightarrow> structuredPrompts s = []"
proof (induction s)
  case Nil
  show ?case by simp
next
  case (Cons c cs)
  then have "structuredAt (c # cs) = None"
    by (simp add: structuredAt_def orElse_def thenAhead_def no_header_here)
  with Cons show ?case by simp
qed

lemma promptSections_none:
  "\<forall>c \<in> set s. \<not> headerStart c \<Longrightarrow> promptSections s = [s]"
proof (induction s)
  case Nil
  show ?case by simp
next
  case (Cons c cs)
  then show ?case by (simp add: no_header_here intoFirst_def)
qed

lemma numberedAhead_item: "isDigit d \<Longrightarrow> numberedAhead (d # CHR ''.'' # CHR '' '' # s)"
  by (simp add: numberedAhead_def digits_def isDigit_def isWhiteSpace_def)

lemma numberedAhead_no_digit: "\<not> isDigit c \<Longrightarrow> \<not> numberedAhead (c # s)"
  by (simp add: numberedAhead_def)

lemma numberedSplit_item:
  "\<forall>c \<in> set x. \<not> isDigit c \<Longrightarrow> numberedAhead y \<Longrightarrow>
     numberedSplit (d # x @ y) = (d # x) # numberedSplit y"
proof (induction x arbitrary: d)
  case Nil
  then show ?case by simp
next
  case (Cons a x)
  then have "\<not> numberedAhead (a # x @ y)" by (simp add: numberedAhead_no_digit)
  moreover have "numberedSplit (a # x @ y) = (a # x) # numberedSplit y"
    using Cons by simp
  ultimately show ?case by (simp add: intoFirst_def)
qed

lemma server_collect_full:
  "\<not> int (length ps) < n \<Longrightarrow> server_collect clean n pieces ps = ps"
  by (cases pieces) simp_all

lemma part000_collect_full:
  "\<not> int (length ps) < n \<Longrightarrow> part000_collect clean n pieces (ps, seen) = (ps, seen)"
  by (cases pieces) simp_all

lemma tenNumberedSegments_split:
  "tenNumberedSegments =
     numberedItem 1 (CHR ''a'') @ numberedItem 2 (CHR ''b'') @ numberedItem 3 (CHR ''c'')
       @ fromFourthSegment"
  by code_simp

lemma decimal_digits: "\<forall>c \<in> set (decimal n). isDigit c"
proof (induction n rule: decimal.induct)
  case (1 n)
  have d: "isDigit (''0123456789'' ! k)" if "k < 10" for k
    unfolding isDigit_def using that by (intro nth_mem) simp
  show ?case
  proof (cases "n < 10")
    case True
    then show ?thesis by (subst decimal.simps) (simp add: d)
  next
    case False
    with "1.IH" [OF False] show ?thesis by (subst decimal.simps) (simp add: d)
  qed
qed

lemma digit_no_headerStart: "isDigit c \<Longrightarrow> \<not> headerStart c"
proof -
  have "\<forall>c \<in> set ''0123456789''. \<not> headerStart c"
    by (simp add: headerStart_def canonicalize_def)
  then show "isDigit c \<Longrightarrow> \<not> headerStart c"
    unfolding isDigit_def by blast
qed

lemma numberedItem_plain:
  assumes "0 \<le> k" and "\<not> headerStart c"
  shows "\<forall>x \<in> set (numberedItem k c). \<not> headerStart x"
proof -
  have "\<not> headerStart (CHR ''.'')" "\<not> headerStart (CHR '' '')" "\<not> headerStart (CHR 0x0A)"
    by (simp_all add: headerStart_def canonicalize_def)
  moreover have "\<forall>x \<in> set (numberToString k). \<not> headerStart x"
    using assms(1) decimal_digits digit_no_headerStart by (auto simp: numberToString_def)
  ultimately show ?thesis
    using assms(2) by (auto simp: numberedItem_def)
qed

lemma numberedItems_plain:
  assumes "\<forall>k \<in> set ks. 0 \<le> k" and "\<forall>c \<in> set cs. \<not> headerStart c"
  shows "\<forall>x \<in> set (concat (map (\<lambda>(k, c). numberedItem k c) (zip ks cs))). \<not> headerStart x"
proof
  fix x
  assume "x \<in> set (concat (map (\<lambda>(k, c). numberedItem k c) (zip ks cs)))"
  then obtain k c where kc: "(k, c) \<in> set (zip ks cs)" and x: "x \<in> set (numberedItem k c)"
    by auto
  from kc have "k \<in> set ks" "c \<in> set cs"
    by (auto dest: set_zip_leftD set_zip_rightD)
  with assms have "0 \<le> k" "\<not> headerStart c" by blast+
  with x numberedItem_plain show "\<not> headerStart x" by blast
qed

lemma tenNumberedSegments_plain: "\<forall>x \<in> set tenNumberedSegments. \<not> headerStart x"
  unfolding tenNumberedSegments_def
proof (rule numberedItems_plain)
  show "\<forall>k \<in> set [1..10]. (0::int) \<le> k" by simp
  show "\<forall>c \<in> set ''abcdefghjk''. \<not> headerStart c"
    by (simp add: headerStart_def canonicalize_def)
qed

lemma item_shape:
  "numberedItem 1 c = CHR ''1'' # (''. '' @ replicate 120 c @ [CHR 0x0A])"
  "numberedItem 2 c = CHR ''2'' # (''. '' @ replicate 120 c @ [CHR 0x0A])"
  "numberedItem 3 c = CHR ''3'' # (''. '' @ replicate 120 c @ [CHR 0x0A])"
  by (simp_all add: numberedItem_def numberToString_def decimal.simps)

lemma fromFourthSegment_ahead: "numberedAhead fromFourthSegment"
  by code_simp

lemma item_ahead:
  "numberedAhead (numberedItem 2 c @ s)" "numberedAhead (numberedItem 3 c @ s)"
  by (simp_all add: item_shape numberedAhead_item isDigit_def)

lemma item_body_no_digit:
  "\<not> isDigit c \<Longrightarrow> \<forall>x \<in> set (''. '' @ replicate 120 c @ [CHR 0x0A]). \<not> isDigit x"
  by (simp add: isDigit_def)

lemma numberedSplit_item':
  assumes "item = d # x" and "\<forall>c \<in> set x. \<not> isDigit c" and "numberedAhead y"
  shows "numberedSplit (item @ y) = item # numberedSplit y"
  using numberedSplit_item [OF assms(2,3), of d] assms(1) by simp

lemma tenNumberedSegments_pieces:
  "numberedSplit tenNumberedSegments =
     numberedItem 1 (CHR ''a'') # numberedItem 2 (CHR ''b'') # numberedItem 3 (CHR ''c'')
       # numberedSplit fromFourthSegment"
proof -
  have nd: "\<not> isDigit (CHR ''a'')" "\<not> isDigit (CHR ''b'')" "\<not> isDigit (CHR ''c'')"
    by (simp_all add: isDigit_def)
  have 3: "numberedSplit (numberedItem 3 (CHR ''c'') @ fromFourthSegment)
      = numberedItem 3 (CHR ''c'') # numberedSplit fromFourthSegment"
    by (rule numberedSplit_item' [OF item_shape(3) item_body_no_digit [OF nd(3)]
          fromFourthSegment_ahead])
  have 2: "numberedSplit (numberedItem 2 (CHR ''b'') @ numberedItem 3 (CHR ''c'')
        @ fromFourthSegment)
      = numberedItem 2 (CHR ''b'') # numberedSplit (numberedItem 3 (CHR ''c'')
        @ fromFourthSegment)"
    by (rule numberedSplit_item' [OF item_shape(2) item_body_no_digit [OF nd(2)] item_ahead(2)])
  have 1: "numberedSplit (numberedItem 1 (CHR ''a'') @ numberedItem 2 (CHR ''b'')
        @ numberedItem 3 (CHR ''c'') @ fromFourthSegment)
      = numberedItem 1 (CHR ''a'') # numberedSplit (numberedItem 2 (CHR ''b'')
        @ numberedItem 3 (CHR ''c'') @ fromFourthSegment)"
    by (rule numberedSplit_item' [OF item_shape(1) item_body_no_digit [OF nd(1)] item_ahead(1)])
  show ?thesis
    by (simp only: tenNumberedSegments_split 1 2 3)
qed

lemma item_trimmed:
  "trim (numberedItem 2 (CHR ''b'')) = ''2. '' @ replicate 120 (CHR ''b'')
   \<and> trim (numberedItem 3 (CHR ''c'')) = ''3. '' @ replicate 120 (CHR ''c'')"
  by code_simp

lemma item_cleaned:
  "cleanPlain (numberedItem 2 (CHR ''b'')) = ''2. '' @ replicate 120 (CHR ''b'')
   \<and> cleanPlain (numberedItem 3 (CHR ''c'')) = ''3. '' @ replicate 120 (CHR ''c'')"
  by code_simp

lemma item_normalized:
  "normalize (''3. '' @ replicate 120 (CHR ''c''))
     \<noteq> normalize (''2. '' @ replicate 120 (CHR ''b''))"
  by code_simp

text \<open>
  Claim C4 does not hold of the code. The text is ten numbered segments of 123 code
  units each, every one on a line of its own, and nothing in front of the first. The
  split on the numbered items never cuts at the start of the text, so its first piece
  is the first segment; both loops start at the second piece. For a count of 2 both
  parsers return the segments 2 and 3.
\<close>

theorem numbered_segments_lose_the_first:
  "hd (numberedSplit tenNumberedSegments) = numberedItem 1 (CHR ''a'')
   \<and> server_parseMultiplePrompts tenNumberedSegments 2
       = Inr [''2. '' @ replicate 120 (CHR ''b''), ''3. '' @ replicate 120 (CHR ''c'')]
   \<and> part000_parseMultiplePrompts tenNumberedSegments 2
       = Inr [''2. '' @ replicate 120 (CHR ''b''), ''3. '' @ replicate 120 (CHR ''c'')]"
proof (intro conjI)
  let ?T = tenNumberedSegments
  let ?p2 = "''2. '' @ replicate 120 (CHR ''b'')"
  let ?p3 = "''3. '' @ replicate 120 (CHR ''c'')"
  note plain = tenNumberedSegments_plain
  show "hd (numberedSplit ?T) = numberedItem 1 (CHR ''a'')"
    by (simp only: tenNumberedSegments_pieces list.sel)
  have s1: "server_structured ?T 2 [] = []"
    by (simp add: server_structured_def structuredPrompts_none [OF plain])
  have s2: "server_numbered ?T 2 [] = [?p2, ?p3]"
    by (simp add: server_numbered_def tenNumberedSegments_pieces Let_def item_trimmed
          server_collect_full)
  have s3: "server_extract ?T 2 = [?p2, ?p3]"
    by (simp add: server_extract_def s1 s2 server_mainContent_def server_paragraphs_def)
  have "server_pad ?T 2 [?p2, ?p3] = Inr [?p2, ?p3]"
    by (rule server_pad_done) simp
  then show "server_parseMultiplePrompts ?T 2 = Inr [?p2, ?p3]"
    by (simp add: server_parseMultiplePrompts_def s3 slice0_def)
  let ?seen = "{normalize ?p2, normalize ?p3}"
  have p1: "part000_structured ?T 2 ([], {}) = ([], {})"
    by (simp add: part000_structured_def structuredPrompts_none [OF plain])
  have p2: "part000_sections ?T 2 ([], {}) = ([], {})"
    by (simp add: part000_sections_def promptSections_none [OF plain])
  have p3: "part000_numbered ?T 2 ([], {}) = ([?p2, ?p3], ?seen)"
    using item_normalized
    by (simp add: part000_numbered_def tenNumberedSegments_pieces Let_def item_cleaned
          part000_collect_full insert_commute)
  have p4: "part000_extract ?T 2 = ([?p2, ?p3], ?seen)"
    by (simp add: part000_extract_def p1 p2 p3 part000_mainContent_def part000_paragraphs_def)
  have "part000_pad ?T 2 ([?p2, ?p3], ?seen) = Inr ([?p2, ?p3], ?seen)"
    by (rule part000_pad_done) simp
  then show "part000_parseMultiplePrompts ?T 2 = Inr [?p2, ?p3]"
    by (simp add: part000_parseMultiplePrompts_def p4 slice0_def)
qed

text \<open>
  With a line of other text in front, the first piece is that line and the same loops
  return the segments 1 and 2.
\<close>

lemma item_one_cleaned:
  "trim (numberedItem 1 (CHR ''a'')) = ''1. '' @ replicate 120 (CHR ''a'')
   \<and> cleanPlain (numberedItem 1 (CHR ''a'')) = ''1. '' @ replicate 120 (CHR ''a'')
   \<and> normalize (''2. '' @ replicate 120 (CHR ''b''))
       \<noteq> normalize (''1. '' @ replicate 120 (CHR ''a''))"
  by code_simp

lemma tenNumberedSegments_ahead: "numberedAhead tenNumberedSegments"
  by (simp add: tenNumberedSegments_split item_shape numberedAhead_item isDigit_def)

theorem numbered_segments_after_preamble:
  "server_parseMultiplePrompts (''Here are ten:'' @ [CHR 0x0A] @ tenNumberedSegments) 2
       = Inr [''1. '' @ replicate 120 (CHR ''a''), ''2. '' @ replicate 120 (CHR ''b'')]
   \<and> part000_parseMultiplePrompts (''Here are ten:'' @ [CHR 0x0A] @ tenNumberedSegments) 2
       = Inr [''1. '' @ replicate 120 (CHR ''a''), ''2. '' @ replicate 120 (CHR ''b'')]"
proof (intro conjI)
  let ?pre = "''Here are ten:'' @ [CHR 0x0A]"
  let ?T = "''Here are ten:'' @ [CHR 0x0A] @ tenNumberedSegments"
  let ?p1 = "''1. '' @ replicate 120 (CHR ''a'')"
  let ?p2 = "''2. '' @ replicate 120 (CHR ''b'')"
  have "\<forall>x \<in> set ?pre. \<not> headerStart x"
    by (simp add: headerStart_def canonicalize_def)
  then have plain: "\<forall>x \<in> set ?T. \<not> headerStart x"
    using tenNumberedSegments_plain by (simp only: set_append ball_Un) blast
  have "\<forall>c \<in> set (''ere are ten:'' @ [CHR 0x0A]). \<not> isDigit c"
    by (simp add: isDigit_def)
  from numberedSplit_item [OF this tenNumberedSegments_ahead, of "CHR ''H''"]
  have pieces: "numberedSplit ?T = ?pre # numberedSplit tenNumberedSegments"
    by simp
  have s1: "server_structured ?T 2 [] = []"
    using structuredPrompts_none [OF plain] by (simp only: server_structured_def server_collect.simps)
  have s2: "server_numbered ?T 2 [] = [?p1, ?p2]"
    by (simp add: server_numbered_def pieces tenNumberedSegments_pieces Let_def item_trimmed
          item_one_cleaned server_collect_full del: append.simps)
  have s3: "server_extract ?T 2 = [?p1, ?p2]"
    by (simp add: server_extract_def s1 s2 server_mainContent_def server_paragraphs_def
          del: append.simps)
  have "server_pad ?T 2 [?p1, ?p2] = Inr [?p1, ?p2]"
    by (rule server_pad_done) simp
  then show "server_parseMultiplePrompts ?T 2 = Inr [?p1, ?p2]"
    by (simp add: server_parseMultiplePrompts_def s3 slice0_def del: append.simps)
  let ?seen = "{normalize ?p1, normalize ?p2}"
  have p1: "part000_structured ?T 2 ([], {}) = ([], {})"
    using structuredPrompts_none [OF plain]
    by (simp only: part000_structured_def part000_collect.simps)
  have p2: "part000_sections ?T 2 ([], {}) = ([], {})"
    using promptSections_none [OF plain] by (simp add: part000_sections_def del: append.simps)
  have p3: "part000_numbered ?T 2 ([], {}) = ([?p1, ?p2], ?seen)"
    using item_one_cleaned
    by (simp add: part000_numbered_def pieces tenNumberedSegments_pieces Let_def item_cleaned
          part000_collect_full insert_commute del: append.simps)
  have p4: "part000_extract ?T 2 = ([?p1, ?p2], ?seen)"
    by (simp add: part000_extract_def p1 p2 p3 part000_mainContent_def part000_paragraphs_def
          del: append.simps)
  have "part000_pad ?T 2 ([?p1, ?p2], ?seen) = Inr ([?p1, ?p2], ?seen)"
    by (rule part000_pad_done) simp
  then show "part000_parseMultiplePrompts ?T 2 = Inr [?p1, ?p2]"
    by (simp add: part000_parseMultiplePrompts_def p4 slice0_def del: append.simps)
qed

end
